theory Spec2Isabelle
  imports Main "HOL-Library.Word"
begin

section \<open>The symbol interning benchmark (0001-string-interning.cpp)\<close>

text \<open>
  The development fixes the LP64 data model the benchmark is built for: \<open>uint32_t\<close> is a
  32-bit word, \<open>std::size_t\<close> a 64-bit word, \<open>long long\<close> a 64-bit two's complement
  integer. A \<open>std::string\<close> is a list of bytes, a \<open>std::vector\<close> a list, a
  \<open>std::unordered_map\<close> a partial function. The library is the one of the build line,
  \<open>g++\<close> with libstdc++. An allocation that is attempted is taken to succeed; a
  \<open>reserve\<close> beyond \<open>max_size\<close> throws \<open>std::length_error\<close> before anything is allocated,
  and is part of the model. The registry's mutex orders whole calls of \<open>get_id\<close>; the model
  is the sequential program, one call after the other.
\<close>

subsection \<open>SymbolRegistry\<close>

type_synonym uint32_t = "32 word"
type_synonym size_t = "64 word"

record SymbolRegistry =
  string_to_id :: "string \<rightharpoonup> uint32_t"
  id_to_string :: "string list"

text \<open>
  The private members \<open>string_to_id_\<close> and \<open>id_to_string_\<close>, written without the trailing
  underscore, which a field name cannot end with here. A default-constructed registry has both
  containers empty.
\<close>

definition empty_registry :: SymbolRegistry where
  "empty_registry = \<lparr>string_to_id = Map.empty, id_to_string = []\<rparr>"

text \<open>
  \<open>get_id\<close> returns the stored ID when \<open>find\<close> succeeds. Otherwise the new ID is the size
  of the reverse table cast to \<open>uint32_t\<close> (the cast keeps the low 32 bits), the forward map is
  updated and the symbol is appended to the reverse table.
\<close>

definition get_id :: "SymbolRegistry \<Rightarrow> string \<Rightarrow> uint32_t \<times> SymbolRegistry" where
  "get_id r symbol =
     (case string_to_id r symbol of
        Some i \<Rightarrow> (i, r)
      | None \<Rightarrow>
          (let new_id = (of_nat (length (id_to_string r)) :: uint32_t)
           in (new_id,
               r\<lparr>string_to_id := (string_to_id r)(symbol \<mapsto> new_id),
                 id_to_string := id_to_string r @ [symbol]\<rparr>)))"

text \<open>
  \<open>get_symbol\<close> is \<open>std::vector::at\<close>: the \<open>uint32_t\<close> index is widened to \<open>size_t\<close> and the
  call throws \<open>std::out_of_range\<close> when it is not below the size. Indexing the symbol pool
  with \<open>operator[]\<close> (in the workload generator) has no such check: out of range it is
  undefined behaviour, which the model reports as a fault of its own. \<open>LengthError\<close> is
  the \<open>std::length_error\<close> of \<open>std::vector::reserve\<close>.
\<close>

datatype fault = OutOfRange | UndefinedIndex | LengthError

definition get_symbol :: "SymbolRegistry \<Rightarrow> uint32_t \<Rightarrow> fault + string" where
  "get_symbol r i =
     (if unat i < length (id_to_string r) then Inr (id_to_string r ! unat i)
      else Inl OutOfRange)"

text \<open>A sequence of \<open>get_id\<close> calls, collecting the returned IDs in call order.\<close>

fun get_ids :: "SymbolRegistry \<Rightarrow> string list \<Rightarrow> uint32_t list \<times> SymbolRegistry" where
  "get_ids r [] = ([], r)"
| "get_ids r (s # ss) =
     (case get_id r s of (i, r') \<Rightarrow>
        (case get_ids r' ss of (is, r'') \<Rightarrow> (i # is, r'')))"

text \<open>
  The states a registry can be in: the fields are private, so every state is the result of
  some calls of \<open>get_id\<close> on a default-constructed registry.
\<close>

inductive reachable :: "SymbolRegistry \<Rightarrow> bool" where
  reachable_empty: "reachable empty_registry"
| reachable_get_id: "reachable r \<Longrightarrow> reachable (snd (get_id r s))"

text \<open>
  The representation invariant of a reachable registry: the reverse table has no duplicates,
  and the forward map sends exactly the symbols of the table to their position, cast to
  \<open>uint32_t\<close>.
\<close>

definition registry_inv :: "SymbolRegistry \<Rightarrow> bool" where
  "registry_inv r \<longleftrightarrow>
     distinct (id_to_string r) \<and>
     (\<forall>s i. string_to_id r s = Some i \<longleftrightarrow>
        (\<exists>k < length (id_to_string r). id_to_string r ! k = s \<and> i = of_nat k))"


subsection \<open>Symbol pool and workload generator\<close>

definition SYMBOL_POOL :: "string list" where
  "SYMBOL_POOL =
     [''AAPL'', ''MSFT'', ''GOOGL'', ''AMZN'', ''NVDA'',
      ''TSLA'', ''META'', ''BRK.B'', ''JPM'', ''V'',
      ''SPY'', ''QQQ'', ''IWM'', ''DIA'', ''GLD'',
      ''TLT'', ''VTI'', ''EEM'', ''XLF'', ''HYG'',
      ''EURUSD'', ''GBPUSD'', ''USDJPY'', ''USDCHF'', ''AUDUSD'',
      ''NZDUSD'', ''USDCAD'', ''EURGBP'', ''EURJPY'', ''GBPJPY'',
      ''ES'', ''NQ'', ''CL'', ''GC'', ''SI'',
      ''NG'', ''ZB'', ''ZN'', ''ZC'', ''ZS'',
      ''BTCUSD'', ''ETHUSD'', ''SOLUSD'', ''BNBUSD'', ''XRPUSD'']"

text \<open>
  \<open>generate_incoming_stream\<close> seeds a local \<open>std::mt19937\<close> and draws \<open>n\<close> indices from a
  \<open>std::uniform_int_distribution<int>\<close> over \<open>[0, size - 1]\<close>. Engine and distribution belong
  to the C++ standard library, not to the program: they are parameters of the model, the
  engine as the function from the seed to its initial state, the distribution as the function
  from its bounds and an engine state to the value drawn and the next engine state. The loop
  counts \<open>i\<close> up to \<open>n\<close> and appends a copy of the pool entry; \<open>SYMBOL_POOL[k]\<close> outside the
  pool is the fault \<open>UndefinedIndex\<close>. Before the loop, \<open>stream.reserve(n)\<close> throws
  \<open>std::length_error\<close> when \<open>n\<close> is above the \<open>max_size()\<close> of a
  \<open>std::vector<std::string>\<close>, which in libstdc++ is \<open>PTRDIFF_MAX / sizeof(std::string)\<close>
  with 32 bytes to a \<open>std::string\<close>.
\<close>

definition vector_max_size :: nat where
  "vector_max_size = (2 ^ 63 - 1) div 32"

function stream_loop ::
  "('g \<Rightarrow> int \<times> 'g) \<Rightarrow> nat \<Rightarrow> nat \<Rightarrow> 'g \<Rightarrow> string list \<Rightarrow> fault + string list" where
  "stream_loop pick i n rng stream =
     (if i < n then
        (case pick rng of (k, rng') \<Rightarrow>
           if 0 \<le> k \<and> nat k < length SYMBOL_POOL
           then stream_loop pick (Suc i) n rng' (stream @ [SYMBOL_POOL ! nat k])
           else Inl UndefinedIndex)
      else Inr stream)"
  by pat_completeness auto
termination
  by (relation "measure (\<lambda>(pick, i, n, rng, stream). n - i)") auto

declare stream_loop.simps [simp del]

definition generate_incoming_stream ::
  "(uint32_t \<Rightarrow> 'g) \<Rightarrow> (int \<Rightarrow> int \<Rightarrow> 'g \<Rightarrow> int \<times> 'g) \<Rightarrow> nat \<Rightarrow> uint32_t \<Rightarrow> fault + string list" where
  "generate_incoming_stream mt19937 uniform_int_distribution n seed =
     (let rng = mt19937 seed;
          pick = uniform_int_distribution 0 (int (length SYMBOL_POOL) - 1)
      in if vector_max_size < n then Inl LengthError
         else stream_loop pick 0 n rng [])"

subsection \<open>The benchmark loops\<close>

text \<open>
  The inner fanout loops of the 1-to-many scenario: \<open>f\<close> runs from 0 to \<open>fanout\<close>, and each
  round increments the \<open>size_t\<close> counter when the comparison succeeds.
\<close>

function count_id_matches :: "nat \<Rightarrow> nat \<Rightarrow> uint32_t \<Rightarrow> uint32_t \<Rightarrow> size_t \<Rightarrow> size_t" where
  "count_id_matches f fanout incoming_id target_id matches =
     (if f < fanout
      then count_id_matches (Suc f) fanout incoming_id target_id
             (if incoming_id = target_id then matches + 1 else matches)
      else matches)"
  by pat_completeness auto
termination
  by (relation "measure (\<lambda>(f, fanout, incoming_id, target_id, matches). fanout - f)") auto

declare count_id_matches.simps [simp del]

function count_string_matches :: "nat \<Rightarrow> nat \<Rightarrow> string \<Rightarrow> string \<Rightarrow> size_t \<Rightarrow> size_t" where
  "count_string_matches f fanout symb target_string matches =
     (if f < fanout
      then count_string_matches (Suc f) fanout symb target_string
             (if symb = target_string then matches + 1 else matches)
      else matches)"
  by pat_completeness auto
termination
  by (relation "measure (\<lambda>(f, fanout, symb, target_string, matches). fanout - f)") auto

declare count_string_matches.simps [simp del]

text \<open>
  The loops over the incoming stream. The registry path calls \<open>get_id\<close> once per element and
  compares the ID with the target's; the direct path compares the strings. The loops return
  the counter (and the registry, which \<open>get_id\<close> may have extended). The warm-up loops that
  feed \<open>sink\<close> are the same loops with \<open>sink\<close> as the counter: \<open>sink += c ? 1 : 0\<close> adds
  one exactly when \<open>c\<close> holds.
\<close>

fun registry_1to1 ::
  "SymbolRegistry \<Rightarrow> uint32_t \<Rightarrow> string list \<Rightarrow> size_t \<Rightarrow> size_t \<times> SymbolRegistry" where
  "registry_1to1 registry target_id [] matches = (matches, registry)"
| "registry_1to1 registry target_id (symb # incoming) matches =
     (case get_id registry symb of (incoming_id, registry') \<Rightarrow>
        registry_1to1 registry' target_id incoming
          (if incoming_id = target_id then matches + 1 else matches))"

fun direct_1to1 :: "string \<Rightarrow> string list \<Rightarrow> size_t \<Rightarrow> size_t" where
  "direct_1to1 target_string [] matches = matches"
| "direct_1to1 target_string (symb # incoming) matches =
     direct_1to1 target_string incoming
       (if symb = target_string then matches + 1 else matches)"

fun registry_fanout ::
  "SymbolRegistry \<Rightarrow> uint32_t \<Rightarrow> nat \<Rightarrow> string list \<Rightarrow> size_t \<Rightarrow> size_t \<times> SymbolRegistry" where
  "registry_fanout registry target_id fanout [] matches = (matches, registry)"
| "registry_fanout registry target_id fanout (symb # incoming) matches =
     (case get_id registry symb of (incoming_id, registry') \<Rightarrow>
        registry_fanout registry' target_id fanout incoming
          (count_id_matches 0 fanout incoming_id target_id matches))"

fun direct_fanout :: "string \<Rightarrow> nat \<Rightarrow> string list \<Rightarrow> size_t \<Rightarrow> size_t" where
  "direct_fanout target_string fanout [] matches = matches"
| "direct_fanout target_string fanout (symb # incoming) matches =
     direct_fanout target_string fanout incoming
       (count_string_matches 0 fanout symb target_string matches)"

subsection \<open>The program\<close>

text \<open>
  What a run of \<open>main\<close> leaves behind: the exit code, the text written to \<open>std::cerr\<close>,
  the rows pushed to \<open>fanout_results\<close> (fanout and match count) and, as a trace, the scenarios
  whose timed loops ran, each with the match counts of the registry path and of the direct
  path. Elapsed times are readings of the wall clock; they only reach the tables printed to
  \<open>std::cout\<close>, which the model leaves out.
\<close>

datatype scenario = OneToOne | OneToMany nat

record outcome =
  exit_code :: int
  cerr :: string
  runs :: "(scenario \<times> size_t \<times> size_t) list"
  fanout_results :: "(nat \<times> size_t) list"

text \<open>\<open>operator<<\<close> prints a \<open>size_t\<close> in decimal.\<close>

definition digit :: "nat \<Rightarrow> char" where
  "digit d = ''0123456789'' ! d"

fun decimal :: "nat \<Rightarrow> string" where
  "decimal n = (if n < 10 then [digit n] else decimal (n div 10) @ [digit (n mod 10)])"

declare decimal.simps [simp del]

text \<open>The line written to \<open>std::cerr\<close> when the two counts of a scenario differ.\<close>

fun diagnostic :: "scenario \<Rightarrow> size_t \<Rightarrow> size_t \<Rightarrow> string" where
  "diagnostic OneToOne matches_a matches_b =
     ''ERROR [1-to-1]: match counts differ ('' @ decimal (unat matches_a) @ '' vs '' @
     decimal (unat matches_b) @ '')'' @ [CHR 0x0A]"
| "diagnostic (OneToMany fanout) matches_c matches_d =
     ''ERROR [1-to-many fanout='' @ decimal fanout @ '']: match counts differ ('' @
     decimal (unat matches_c) @ '' vs '' @ decimal (unat matches_d) @ '')'' @ [CHR 0x0A]"

text \<open>
  The fanout sweep \<open>for (fanout = 8; fanout <= 1024; fanout *= 2)\<close>, from any start value:
  warm-up loops, timed loops, the check of the two counts (\<open>return 1\<close> when they differ),
  the push to \<open>fanout_results\<close>; after the loop the summary is printed and \<open>main\<close> returns 0.
  A sweep started at 0 would never end, so the result is an option, \<open>None\<close> for a run that
  does not return.
\<close>

partial_function (option) sweep ::
  "string \<Rightarrow> uint32_t \<Rightarrow> string list \<Rightarrow> nat \<Rightarrow> SymbolRegistry \<Rightarrow> size_t \<Rightarrow> outcome
     \<Rightarrow> outcome option" where
  "sweep target_string target_id incoming fanout registry sink out =
     (if fanout \<le> 1024 then
        (case registry_fanout registry target_id fanout incoming sink of
           (sink1, registry1) \<Rightarrow>
        (case registry_fanout registry1 target_id fanout incoming 0 of
           (matches_c, registry2) \<Rightarrow>
        (let sink2 = direct_fanout target_string fanout incoming sink1;
             matches_d = direct_fanout target_string fanout incoming 0;
             out1 = out\<lparr>runs := runs out @ [(OneToMany fanout, matches_c, matches_d)]\<rparr>
         in if matches_c \<noteq> matches_d
            then Some (out1\<lparr>exit_code := 1,
                           cerr := cerr out1 @ diagnostic (OneToMany fanout) matches_c matches_d\<rparr>)
            else sweep target_string target_id incoming (fanout * 2) registry2 sink2
                   (out1\<lparr>fanout_results := fanout_results out1 @ [(fanout, matches_c)]\<rparr>))))
      else Some (out\<lparr>exit_code := 0\<rparr>))"

text \<open>
  \<open>main\<close> from the registration of the pool on, for an incoming stream: registration of the
  pool and of the target, warm-up, the 1-to-1 scenario with its check, then the sweep from 8.
\<close>

definition run_benchmark :: "string list \<Rightarrow> outcome option" where
  "run_benchmark incoming =
     (let target_string = ''BTCUSD'' in
      case get_id (snd (get_ids empty_registry SYMBOL_POOL)) target_string of
        (target_id, registry0) \<Rightarrow>
      (case registry_1to1 registry0 target_id incoming 0 of (sink1, registry1) \<Rightarrow>
      (case registry_1to1 registry1 target_id incoming 0 of (matches_a, registry2) \<Rightarrow>
      (let sink2 = direct_1to1 target_string incoming sink1;
           matches_b = direct_1to1 target_string incoming 0;
           out = \<lparr>exit_code = 0, cerr = [], runs = [(OneToOne, matches_a, matches_b)],
                  fanout_results = []\<rparr>
       in if matches_a \<noteq> matches_b
          then Some (out\<lparr>exit_code := 1,
                         cerr := cerr out @ diagnostic OneToOne matches_a matches_b\<rparr>)
          else sweep target_string target_id incoming 8 registry2 sink2 out))))"

text \<open>
  \<open>atoll\<close> is the C library's. The model follows the C standard: white space is skipped, an
  optional sign is read, then the longest run of decimal digits; without any digit the result
  is 0. The standard leaves a value outside \<open>long long\<close> undefined for \<open>atoll\<close>; the model
  saturates as \<open>strtoll\<close> does. \<open>no_conversion\<close> holds of the strings in which no number
  can be read.
\<close>

definition isspace :: "char \<Rightarrow> bool" where
  "isspace c \<longleftrightarrow> c \<in> set [CHR '' '', CHR 0x09, CHR 0x0A, CHR 0x0B, CHR 0x0C, CHR 0x0D]"

definition isdigit :: "char \<Rightarrow> bool" where
  "isdigit c \<longleftrightarrow> (48 :: nat) \<le> of_char c \<and> of_char c \<le> (57 :: nat)"

fun digits_value :: "int \<Rightarrow> string \<Rightarrow> int" where
  "digits_value acc [] = acc"
| "digits_value acc (c # cs) =
     (if isdigit c then digits_value (acc * 10 + (of_char c - 48)) cs else acc)"

definition atoll :: "string \<Rightarrow> int" where
  "atoll nptr =
     (let s = dropWhile isspace nptr;
          v = (case s of
                 [] \<Rightarrow> 0
               | c # cs \<Rightarrow>
                   if c = CHR ''-'' then - digits_value 0 cs
                   else if c = CHR ''+'' then digits_value 0 cs
                   else digits_value 0 s)
      in max (- (2 ^ 63)) (min (2 ^ 63 - 1) v))"

definition no_conversion :: "string \<Rightarrow> bool" where
  "no_conversion nptr \<longleftrightarrow>
     (case dropWhile isspace nptr of
        [] \<Rightarrow> True
      | c # cs \<Rightarrow>
          if c = CHR ''-'' \<or> c = CHR ''+''
          then (case cs of [] \<Rightarrow> True | d # ds \<Rightarrow> \<not> isdigit d)
          else \<not> isdigit c)"

text \<open>
  \<open>ITERATIONS\<close>: the \<open>long long\<close> is cast to \<open>size_t\<close> when an argument is present
  (\<open>argc > 1\<close>), and is 10,000,000 otherwise. \<open>main\<close> generates the stream with the default
  seed 42 and runs the benchmark on it. Nothing in the program catches an exception: a fault
  of the generator leaves \<open>main\<close> without an exit code (\<open>std::terminate\<close> aborts the
  process), which is the result \<open>Inl\<close>; \<open>Inr\<close> is a run in which \<open>main\<close> returns.
\<close>

definition ITERATIONS :: "string list \<Rightarrow> size_t" where
  "ITERATIONS argv = (if length argv > 1 then word_of_int (atoll (argv ! 1)) else 10000000)"

definition main ::
  "(uint32_t \<Rightarrow> 'g) \<Rightarrow> (int \<Rightarrow> int \<Rightarrow> 'g \<Rightarrow> int \<times> 'g) \<Rightarrow> string list
     \<Rightarrow> (fault + outcome) option" where
  "main mt19937 uniform_int_distribution argv =
     (case generate_incoming_stream mt19937 uniform_int_distribution
             (unat (ITERATIONS argv)) 42 of
        Inl e \<Rightarrow> Some (Inl e)
      | Inr incoming \<Rightarrow> map_option Inr (run_benchmark incoming))"

subsection \<open>Sample inputs and the predicates of the statements\<close>

text \<open>
  A small engine and distribution to run the generator on: the state is a counter, the value
  drawn is the counter reduced into the bounds.
\<close>

definition counter_engine :: "uint32_t \<Rightarrow> nat" where
  "counter_engine seed = unat seed"

definition counter_distribution :: "int \<Rightarrow> int \<Rightarrow> nat \<Rightarrow> int \<times> nat" where
  "counter_distribution a b g = (a + int (g mod nat (b - a + 1)), g + 7)"

text \<open>
  \<open>bits n\<close> writes \<open>n\<close> in binary, least significant digit first, with the characters
  \<open>0\<close> and \<open>1\<close>; different numbers give different strings of at most 33 characters for
  numbers up to \<open>2^32\<close>. \<open>many_symbols n\<close> are the first \<open>n\<close> of these strings: a stream of
  \<open>n\<close> pairwise different symbols, which is what it takes to fill the 32-bit ID space.
\<close>

fun bits :: "nat \<Rightarrow> string" where
  "bits n = (if n = 0 then [] else (if even n then CHR ''0'' else CHR ''1'') # bits (n div 2))"

definition many_symbols :: "nat \<Rightarrow> string list" where
  "many_symbols n = map bits [0..<n]"

declare bits.simps [simp del]

text \<open>
  The fanout values a sweep goes through from a positive start value, and the outcome of the
  run on the empty stream.
\<close>

function fanouts_from :: "nat \<Rightarrow> nat list" where
  "fanouts_from fanout =
     (if 0 < fanout \<and> fanout \<le> 1024 then fanout # fanouts_from (fanout * 2) else [])"
  by pat_completeness auto
termination
  by (relation "measure (\<lambda>fanout. 1025 - fanout)") auto

declare fanouts_from.simps [simp del]

definition zero_outcome :: outcome where
  "zero_outcome =
     \<lparr>exit_code = 0, cerr = [],
      runs = [(OneToOne, 0, 0), (OneToMany 8, 0, 0), (OneToMany 16, 0, 0), (OneToMany 32, 0, 0),
              (OneToMany 64, 0, 0), (OneToMany 128, 0, 0), (OneToMany 256, 0, 0),
              (OneToMany 512, 0, 0), (OneToMany 1024, 0, 0)],
      fanout_results = [(8, 0), (16, 0), (32, 0), (64, 0), (128, 0), (256, 0), (512, 0),
                        (1024, 0)]\<rparr>"

text \<open>
  The contract of the exit code. \<open>all_scenarios\<close> are the scenarios of a full run, in order;
  a run \<open>agree\<close>s when its two counts are equal. \<open>exit_contract\<close>: the exit code is 0 exactly
  when the counts of every scenario that ran agree, and then nothing was written to
  \<open>std::cerr\<close> and every scenario ran; otherwise the exit code is 1, the scenario whose counts
  differ is the last one that ran, the scenarios before it agree, and \<open>std::cerr\<close> holds one
  line, which names that scenario (with its fanout in decimal for a 1-to-many scenario) and
  gives the two counts in decimal.
\<close>

definition all_scenarios :: "scenario list" where
  "all_scenarios = OneToOne # map OneToMany [8, 16, 32, 64, 128, 256, 512, 1024]"

definition agree :: "scenario \<times> size_t \<times> size_t \<Rightarrow> bool" where
  "agree run \<longleftrightarrow> fst (snd run) = snd (snd run)"

definition exit_contract :: "outcome \<Rightarrow> bool" where
  "exit_contract out \<longleftrightarrow>
     (exit_code out = 0 \<longleftrightarrow> list_all agree (runs out)) \<and>
     (exit_code out = 0 \<longrightarrow> cerr out = [] \<and> map fst (runs out) = all_scenarios) \<and>
     (exit_code out \<noteq> 0 \<longrightarrow>
        exit_code out = 1 \<and>
        (\<exists>earlier sc a b later.
           runs out = earlier @ [(sc, a, b)] \<and> a \<noteq> b \<and> list_all agree earlier \<and>
           cerr out =
             (case sc of
                OneToOne \<Rightarrow> ''ERROR [1-to-1]: match counts differ (''
              | OneToMany fanout \<Rightarrow>
                  ''ERROR [1-to-many fanout='' @ decimal fanout @
                  '']: match counts differ ('') @
             decimal (unat a) @ '' vs '' @ decimal (unat b) @ '')'' @ [CHR 0x0A] \<and>
           all_scenarios = map fst (runs out) @ later))"

text \<open>
  The counts a scenario has to record. The timed loops find the registry that the pool, the
  target and the warm-up over the stream have filled, \<open>warm_registry\<close>, and BTCUSD with the ID
  it has there. \<open>path_counts\<close> are the match counts of the registry path and of the direct
  path of a scenario over the stream, from the counter 0; \<open>counts_recorded\<close> says that every
  scenario of the trace carries these two counts.
\<close>

definition warm_registry :: "string list \<Rightarrow> SymbolRegistry" where
  "warm_registry incoming = snd (get_ids (snd (get_ids empty_registry SYMBOL_POOL)) incoming)"

definition path_counts :: "string list \<Rightarrow> scenario \<Rightarrow> size_t \<times> size_t" where
  "path_counts incoming sc =
     (let registry = warm_registry incoming;
          target_id = fst (get_id registry ''BTCUSD'')
      in case sc of
           OneToOne \<Rightarrow>
             (fst (registry_1to1 registry target_id incoming 0),
              direct_1to1 ''BTCUSD'' incoming 0)
         | OneToMany fanout \<Rightarrow>
             (fst (registry_fanout registry target_id fanout incoming 0),
              direct_fanout ''BTCUSD'' fanout incoming 0))"

definition counts_recorded :: "string list \<Rightarrow> outcome \<Rightarrow> bool" where
  "counts_recorded incoming out \<longleftrightarrow>
     list_all (\<lambda>run. snd run = path_counts incoming (fst run)) (runs out)"

text \<open>
  The draws of the generator: \<open>nth_draw pick rng i\<close> is the value of the \<open>i\<close>-th call of the
  distribution \<open>pick\<close>, counted from 0, on an engine that starts in the state \<open>rng\<close>.
\<close>

fun nth_draw :: "('g \<Rightarrow> int \<times> 'g) \<Rightarrow> 'g \<Rightarrow> nat \<Rightarrow> int" where
  "nth_draw pick rng 0 = fst (pick rng)"
| "nth_draw pick rng (Suc i) = nth_draw pick (snd (pick rng)) i"

text \<open>
  The outcome of the run on the stream BTCUSD, AAPL, BTCUSD.
\<close>

definition sample_outcome :: outcome where
  "sample_outcome =
     \<lparr>exit_code = 0, cerr = [],
      runs = [(OneToOne, 2, 2), (OneToMany 8, 16, 16), (OneToMany 16, 32, 32),
              (OneToMany 32, 64, 64), (OneToMany 64, 128, 128), (OneToMany 128, 256, 256),
              (OneToMany 256, 512, 512), (OneToMany 512, 1024, 1024),
              (OneToMany 1024, 2048, 2048)],
      fanout_results = [(8, 16), (16, 32), (32, 64), (64, 128), (128, 256), (256, 512),
                        (512, 1024), (1024, 2048)]\<rparr>"


subsection \<open>Properties of the registry\<close>

lemma registry_inv_empty: "registry_inv empty_registry"
  by (simp add: registry_inv_def empty_registry_def)

lemma registry_inv_dom:
  assumes "registry_inv r"
  shows "dom (string_to_id r) = set (id_to_string r)"
proof (rule set_eqI)
  fix s
  show "s \<in> dom (string_to_id r) \<longleftrightarrow> s \<in> set (id_to_string r)"
    using assms unfolding registry_inv_def dom_def in_set_conv_nth by blast
qed

lemma get_id_known:
  "string_to_id r s = Some i \<Longrightarrow> get_id r s = (i, r)"
  by (simp add: get_id_def)

lemma get_id_fresh:
  "string_to_id r s = None \<Longrightarrow>
   get_id r s = (of_nat (length (id_to_string r)),
                 r\<lparr>string_to_id := (string_to_id r)(s \<mapsto> of_nat (length (id_to_string r))),
                   id_to_string := id_to_string r @ [s]\<rparr>)"
  by (simp add: get_id_def Let_def)

lemma registry_inv_get_id:
  assumes "registry_inv r"
  shows "registry_inv (snd (get_id r s))"
proof (cases "string_to_id r s")
  case (Some i)
  then show ?thesis using assms by (simp add: get_id_known)
next
  case None
  let ?T = "id_to_string r"
  from None have fresh: "s \<notin> set ?T"
    using registry_inv_dom [OF assms] by (metis domIff)
  have dist: "distinct (?T @ [s])"
    using assms fresh by (simp add: registry_inv_def)
  have "\<And>t i. ((string_to_id r)(s \<mapsto> of_nat (length ?T))) t = Some i \<longleftrightarrow>
           (\<exists>k < length (?T @ [s]). (?T @ [s]) ! k = t \<and> i = of_nat k)"
  proof -
    fix t i
    show "((string_to_id r)(s \<mapsto> of_nat (length ?T))) t = Some i \<longleftrightarrow>
           (\<exists>k < length (?T @ [s]). (?T @ [s]) ! k = t \<and> i = of_nat k)"
    proof (cases "t = s")
      case True
      have "(\<exists>k < length (?T @ [s]). (?T @ [s]) ! k = s \<and> i = of_nat k) \<longleftrightarrow>
            i = of_nat (length ?T)"
      proof
        assume "\<exists>k < length (?T @ [s]). (?T @ [s]) ! k = s \<and> i = of_nat k"
        then obtain k where k: "k < length (?T @ [s])" "(?T @ [s]) ! k = s" "i = of_nat k"
          by blast
        have "k = length ?T"
        proof (rule ccontr)
          assume "k \<noteq> length ?T"
          with k(1) have "k < length ?T" by simp
          with k(2) have "s \<in> set ?T" by (auto simp: nth_append in_set_conv_nth)
          with fresh show False by simp
        qed
        with k(3) show "i = of_nat (length ?T)" by simp
      next
        assume "i = of_nat (length ?T)"
        then show "\<exists>k < length (?T @ [s]). (?T @ [s]) ! k = s \<and> i = of_nat k"
          by (intro exI [of _ "length ?T"]) simp
      qed
      with True show ?thesis by auto
    next
      case False
      have "(\<exists>k < length (?T @ [s]). (?T @ [s]) ! k = t \<and> i = of_nat k) \<longleftrightarrow>
            (\<exists>k < length ?T. ?T ! k = t \<and> i = of_nat k)"
      proof
        assume "\<exists>k < length (?T @ [s]). (?T @ [s]) ! k = t \<and> i = of_nat k"
        then obtain k where k: "k < length (?T @ [s])" "(?T @ [s]) ! k = t" "i = of_nat k"
          by blast
        from k(2) False have "k \<noteq> length ?T" by auto
        with k(1) have "k < length ?T" by simp
        with k show "\<exists>k < length ?T. ?T ! k = t \<and> i = of_nat k"
          by (auto simp: nth_append)
      next
        assume "\<exists>k < length ?T. ?T ! k = t \<and> i = of_nat k"
        then obtain k where "k < length ?T" "?T ! k = t" "i = of_nat k" by blast
        then show "\<exists>k < length (?T @ [s]). (?T @ [s]) ! k = t \<and> i = of_nat k"
          by (intro exI [of _ k]) (simp add: nth_append)
      qed
      with False assms show ?thesis by (simp add: registry_inv_def)
    qed
  qed
  with dist None show ?thesis
    by (simp add: get_id_fresh registry_inv_def)
qed

lemma reachable_inv: "reachable r \<Longrightarrow> registry_inv r"
  by (induction rule: reachable.induct) (simp_all add: registry_inv_empty registry_inv_get_id)

lemma get_id_keeps:
  "string_to_id r s = Some i \<Longrightarrow> string_to_id (snd (get_id r t)) s = Some i"
  by (cases "string_to_id r t") (auto simp: get_id_known get_id_fresh)

lemma get_id_assigns:
  "string_to_id (snd (get_id r s)) s = Some (fst (get_id r s))"
  by (cases "string_to_id r s") (auto simp: get_id_known get_id_fresh)

lemma get_id_table:
  "id_to_string (snd (get_id r s)) =
     (if s \<in> dom (string_to_id r) then id_to_string r else id_to_string r @ [s])"
  by (cases "string_to_id r s") (auto simp: get_id_known get_id_fresh)

lemma get_ids_snd_Cons:
  "snd (get_ids r (s # ss)) = snd (get_ids (snd (get_id r s)) ss)"
  by (simp split: prod.splits)

lemma get_ids_fst_Cons:
  "fst (get_ids r (s # ss)) = fst (get_id r s) # fst (get_ids (snd (get_id r s)) ss)"
  by (simp split: prod.splits)

lemma get_ids_append:
  "get_ids r (ss @ ts) =
     (fst (get_ids r ss) @ fst (get_ids (snd (get_ids r ss)) ts),
      snd (get_ids (snd (get_ids r ss)) ts))"
  by (induction ss arbitrary: r) (simp_all split: prod.splits)

lemma reachable_get_ids: "reachable r \<Longrightarrow> reachable (snd (get_ids r ss))"
proof (induction ss arbitrary: r)
  case Nil
  then show ?case by simp
next
  case (Cons s ss)
  from Cons.prems have "reachable (snd (get_id r s))" by (rule reachable_get_id)
  then have "reachable (snd (get_ids (snd (get_id r s)) ss))" by (rule Cons.IH)
  then show ?case by (simp only: get_ids_snd_Cons)
qed

lemma registry_inv_get_ids: "registry_inv r \<Longrightarrow> registry_inv (snd (get_ids r ss))"
proof (induction ss arbitrary: r)
  case Nil
  then show ?case by simp
next
  case (Cons s ss)
  from Cons.prems have "registry_inv (snd (get_id r s))" by (rule registry_inv_get_id)
  then have "registry_inv (snd (get_ids (snd (get_id r s)) ss))" by (rule Cons.IH)
  then show ?case by (simp only: get_ids_snd_Cons)
qed

lemma get_ids_keeps:
  "string_to_id r s = Some i \<Longrightarrow> string_to_id (snd (get_ids r ts)) s = Some i"
proof (induction ts arbitrary: r)
  case Nil
  then show ?case by simp
next
  case (Cons t ts)
  from Cons.prems have "string_to_id (snd (get_id r t)) s = Some i" by (rule get_id_keeps)
  then have "string_to_id (snd (get_ids (snd (get_id r t)) ts)) s = Some i" by (rule Cons.IH)
  then show ?case by (simp only: get_ids_snd_Cons)
qed

lemma get_ids_table_prefix:
  "\<exists>xs. id_to_string (snd (get_ids r ts)) = id_to_string r @ xs"
proof (induction ts arbitrary: r)
  case Nil
  then show ?case by simp
next
  case (Cons t ts)
  obtain xs where "id_to_string (snd (get_ids (snd (get_id r t)) ts)) =
      id_to_string (snd (get_id r t)) @ xs"
    using Cons.IH by blast
  then show ?case by (simp only: get_ids_snd_Cons get_id_table) (simp split: if_splits)
qed

lemma get_ids_table_set:
  assumes "registry_inv r"
  shows "set (id_to_string (snd (get_ids r ss))) = set (id_to_string r) \<union> set ss"
  using assms
proof (induction ss arbitrary: r)
  case Nil
  then show ?case by simp
next
  case (Cons s ss)
  have inv': "registry_inv (snd (get_id r s))" using Cons.prems by (rule registry_inv_get_id)
  have "set (id_to_string (snd (get_id r s))) = set (id_to_string r) \<union> {s}"
    using registry_inv_dom [OF Cons.prems] by (auto simp: get_id_table)
  with Cons.IH [OF inv'] show ?case by (simp only: get_ids_snd_Cons) auto
qed

lemma get_ids_fresh_table:
  assumes "registry_inv r" "distinct ss" "set ss \<inter> set (id_to_string r) = {}"
  shows "id_to_string (snd (get_ids r ss)) = id_to_string r @ ss"
  using assms
proof (induction ss arbitrary: r)
  case Nil
  then show ?case by simp
next
  case (Cons s ss)
  have inv': "registry_inv (snd (get_id r s))" using Cons.prems(1) by (rule registry_inv_get_id)
  have tab: "id_to_string (snd (get_id r s)) = id_to_string r @ [s]"
    using registry_inv_dom [OF Cons.prems(1)] Cons.prems(3) by (auto simp: get_id_table)
  have "set ss \<inter> set (id_to_string (snd (get_id r s))) = {}"
    using Cons.prems(2,3) by (auto simp: tab)
  with Cons.IH [OF inv'] Cons.prems(2) tab show ?case
    by (simp only: get_ids_snd_Cons) simp
qed

lemma get_ids_returned:
  "fst (get_ids r ss) = map (\<lambda>s. the (string_to_id (snd (get_ids r ss)) s)) ss"
proof (induction ss arbitrary: r)
  case Nil
  then show ?case by simp
next
  case (Cons s ss)
  have "string_to_id (snd (get_ids (snd (get_id r s)) ss)) s = Some (fst (get_id r s))"
    by (rule get_ids_keeps [OF get_id_assigns])
  with Cons.IH [of "snd (get_id r s)"] show ?case
    by (simp only: get_ids_snd_Cons get_ids_fst_Cons) simp
qed

lemma registry_inv_ran:
  assumes "registry_inv r"
  shows "ran (string_to_id r) = of_nat ` {0..<length (id_to_string r)}"
  using assms unfolding registry_inv_def ran_def by (auto simp: image_iff)

lemma unat_of_nat_32: "k < 2 ^ 32 \<Longrightarrow> unat (of_nat k :: uint32_t) = k"
  by (simp add: unat_of_nat)

lemma registry_inv_assigned_iff:
  assumes "registry_inv r"
  shows "i \<in> ran (string_to_id r) \<longleftrightarrow> unat i < length (id_to_string r)"
proof
  assume "i \<in> ran (string_to_id r)"
  then obtain k where k: "k < length (id_to_string r)" "i = of_nat k"
    using registry_inv_ran [OF assms] by auto
  have "unat (of_nat k :: uint32_t) \<le> k" by (simp add: unat_of_nat)
  with k show "unat i < length (id_to_string r)" by simp
next
  assume "unat i < length (id_to_string r)"
  then have "(of_nat (unat i) :: uint32_t) \<in> of_nat ` {0..<length (id_to_string r)}"
    by (intro imageI) simp
  then show "i \<in> ran (string_to_id r)"
    using registry_inv_ran [OF assms] by simp
qed

lemma registry_inv_lookup:
  assumes "registry_inv r" "length (id_to_string r) \<le> 2 ^ 32" "string_to_id r s = Some i"
  shows "unat i < length (id_to_string r) \<and> id_to_string r ! unat i = s"
proof -
  from assms(1,3) obtain k where k: "k < length (id_to_string r)" "id_to_string r ! k = s"
    "i = of_nat k" unfolding registry_inv_def by blast
  from k(1) assms(2) have "k < 2 ^ 32" by simp
  then have "unat i = k" using k(3) by (simp add: unat_of_nat_32)
  with k show ?thesis by simp
qed

lemma bits_inj: "bits m = bits n \<Longrightarrow> m = n"
proof (induction m arbitrary: n rule: bits.induct)
  case (1 m)
  show ?case
  proof (cases "m = 0")
    case True
    with "1.prems" show ?thesis by (subst (asm) (1 2) bits.simps) (simp split: if_splits)
  next
    case False
    with "1.prems" have n: "n \<noteq> 0" by (subst (asm) (1 2) bits.simps) (simp split: if_splits)
    from "1.prems" False n have par: "even m \<longleftrightarrow> even n" and tl: "bits (m div 2) = bits (n div 2)"
      by (subst (asm) (1 2) bits.simps, simp split: if_splits)+
    from "1.IH" [OF False tl] have "m div 2 = n div 2" .
    with par show ?thesis by (metis div_mult_mod_eq parity_cases) 
  qed
qed

lemma distinct_many_symbols: "distinct (many_symbols n)"
  unfolding many_symbols_def by (simp add: distinct_map inj_on_def) (blast dest: bits_inj)

lemma length_many_symbols: "length (many_symbols n) = n"
  by (simp add: many_symbols_def)

lemma many_symbols_table:
  "id_to_string (snd (get_ids empty_registry (many_symbols n))) = many_symbols n"
  using get_ids_fresh_table [OF registry_inv_empty distinct_many_symbols, of n]
  by (simp add: empty_registry_def)

lemma bits_fresh: "bits n \<notin> set (many_symbols n)"
  unfolding many_symbols_def by (auto dest: bits_inj)

lemma uint32_wrap: "(4294967296 :: uint32_t) = 0"
  by (simp add: word_eq_iff_unsigned [where ?'a = nat])

lemma get_id_overflow:
  "get_id (snd (get_ids empty_registry (many_symbols (2 ^ 32)))) (bits (2 ^ 32)) =
    (0, (snd (get_ids empty_registry (many_symbols (2 ^ 32))))
         \<lparr>string_to_id := (string_to_id (snd (get_ids empty_registry (many_symbols (2 ^ 32)))))
              (bits (2 ^ 32) \<mapsto> 0),
           id_to_string := many_symbols (2 ^ 32) @ [bits (2 ^ 32)]\<rparr>)"
proof -
  let ?r = "snd (get_ids empty_registry (many_symbols (2 ^ 32)))"
  have inv: "registry_inv ?r" by (rule registry_inv_get_ids [OF registry_inv_empty])
  have "bits (2 ^ 32) \<notin> dom (string_to_id ?r)"
    using registry_inv_dom [OF inv] bits_fresh [of "2 ^ 32"] by (simp add: many_symbols_table)
  then have "string_to_id ?r (bits (2 ^ 32)) = None" by (simp add: domIff)
  from get_id_fresh [OF this] show ?thesis
    by (simp add: many_symbols_table length_many_symbols uint32_wrap)
qed

subsection \<open>ID stability\<close>

text \<open>
  Claim C4 (ID stability): in any registry state whatever, two calls of \<open>get_id\<close> in
  sequence with the same symbol return the same ID, and the second call, on a symbol that is
  known by then, leaves the registry as it is: the symbol keeps its ID, the reverse table
  its length and the forward map its keys.
\<close>

theorem get_id_stable:
  "(case get_id r s of (i, r') \<Rightarrow>
      (case get_id r' s of (j, r'') \<Rightarrow>
         j = i \<and> r'' = r' \<and> string_to_id r'' s = Some i \<and>
         length (id_to_string r'') = length (id_to_string r') \<and>
         dom (string_to_id r'') = dom (string_to_id r')))"
  by (cases "string_to_id r s") (simp_all add: get_id_def Let_def)

subsection \<open>Out-of-range lookup\<close>

text \<open>
  Claim C5 (out-of-range lookup): on a registry reached by calls of \<open>get_id\<close>,
  \<open>get_symbol\<close> fails with \<open>OutOfRange\<close> exactly for the IDs that were never assigned, which
  are the IDs not below the number of symbols in the table; an assigned ID always yields a
  text; on a default-constructed registry \<open>get_symbol 0\<close> fails with \<open>OutOfRange\<close>.
\<close>

theorem get_symbol_out_of_range:
  assumes "reachable r"
  shows "(get_symbol r i = Inl OutOfRange \<longleftrightarrow> i \<notin> ran (string_to_id r)) \<and>
         (get_symbol r i = Inl OutOfRange \<longleftrightarrow> length (id_to_string r) \<le> unat i) \<and>
         (i \<in> ran (string_to_id r) \<longleftrightarrow> (\<exists>s. get_symbol r i = Inr s)) \<and>
         get_symbol empty_registry 0 = Inl OutOfRange"
proof -
  have inv: "registry_inv r" using assms by (rule reachable_inv)
  show ?thesis
    using registry_inv_assigned_iff [OF inv, of i]
    by (auto simp: get_symbol_def empty_registry_def)
qed

text \<open>
  The registry after one registration: ID 0 yields the symbol, ID 1 was never assigned and is
  out of range.
\<close>

theorem get_symbol_out_of_range_witness:
  "reachable (snd (get_id empty_registry ''AAPL'')) \<and>
   get_symbol (snd (get_id empty_registry ''AAPL'')) 0 = Inr ''AAPL'' \<and>
   get_symbol (snd (get_id empty_registry ''AAPL'')) 1 = Inl OutOfRange \<and>
   1 \<notin> ran (string_to_id (snd (get_id empty_registry ''AAPL'')))"
proof -
  have r: "reachable (snd (get_id empty_registry ''AAPL''))"
    by (intro reachable_get_id reachable_empty)
  have a: "get_symbol (snd (get_id empty_registry ''AAPL'')) 0 = Inr ''AAPL''"
    by (simp add: get_symbol_def get_id_def empty_registry_def)
  have b: "get_symbol (snd (get_id empty_registry ''AAPL'')) 1 = Inl OutOfRange"
    by (simp add: get_symbol_def get_id_def empty_registry_def)
  from r a b get_symbol_out_of_range [OF r, of 1] show ?thesis by simp
qed

subsection \<open>Round trip\<close>

text \<open>
  Claim C2 (round trip), within the capacity of the ID type: when \<open>get_id\<close> returns \<open>i\<close> for \<open>s\<close> and the table then
  holds at most \<open>2^32\<close> symbols, \<open>get_symbol i\<close> returns \<open>s\<close> after any further calls of
  \<open>get_id\<close>, and \<open>s\<close> keeps the ID \<open>i\<close>; at that moment the reverse table at the forward
  map's ID of a symbol is that symbol, for every symbol registered.
\<close>

theorem round_trip:
  assumes "reachable r" and "get_id r s = (i, r')"
    and "length (id_to_string r') \<le> 2 ^ 32"
    and "get_ids r' ss = (js, r'')"
  shows "get_symbol r'' i = Inr s \<and> string_to_id r'' s = Some i \<and>
         (\<forall>t j. string_to_id r' t = Some j \<longrightarrow> get_symbol r' j = Inr t)"
proof -
  have r': "r' = snd (get_id r s)" and i: "i = fst (get_id r s)" using assms(2) by simp_all
  have r'': "r'' = snd (get_ids r' ss)" using assms(4) by simp
  have inv': "registry_inv r'"
    unfolding r' by (rule registry_inv_get_id [OF reachable_inv [OF assms(1)]])
  have look: "string_to_id r' s = Some i" unfolding r' i by (rule get_id_assigns)
  have rt: "unat j < length (id_to_string r') \<and> id_to_string r' ! unat j = t"
    if "string_to_id r' t = Some j" for t j
    using registry_inv_lookup [OF inv' assms(3) that] .
  obtain xs where xs: "id_to_string r'' = id_to_string r' @ xs"
    unfolding r'' using get_ids_table_prefix by blast
  have "get_symbol r'' i = Inr s"
    using rt [OF look] by (simp add: get_symbol_def xs nth_append)
  moreover have "string_to_id r'' s = Some i"
    unfolding r'' by (rule get_ids_keeps [OF look])
  moreover have "\<forall>t j. string_to_id r' t = Some j \<longrightarrow> get_symbol r' j = Inr t"
    using rt by (simp add: get_symbol_def)
  ultimately show ?thesis by simp
qed

text \<open>
  The target of the benchmark registered first, then two more calls.
\<close>

theorem round_trip_witness:
  "reachable empty_registry \<and>
   get_id empty_registry ''BTCUSD'' =
     (0, \<lparr>string_to_id = [''BTCUSD'' \<mapsto> 0], id_to_string = [''BTCUSD'']\<rparr>) \<and>
   length (id_to_string \<lparr>string_to_id = [''BTCUSD'' \<mapsto> 0], id_to_string = [''BTCUSD'']\<rparr>)
     \<le> 2 ^ 32 \<and>
   get_symbol (snd (get_ids \<lparr>string_to_id = [''BTCUSD'' \<mapsto> 0], id_to_string = [''BTCUSD'']\<rparr>
                 [''AAPL'', ''BTCUSD''])) 0 = Inr ''BTCUSD''"
proof -
  let ?r' = "\<lparr>string_to_id = [''BTCUSD'' \<mapsto> (0 :: uint32_t)], id_to_string = [''BTCUSD'']\<rparr>"
  have g: "get_id empty_registry ''BTCUSD'' = (0, ?r')"
    by (simp add: get_id_def empty_registry_def)
  have l: "length (id_to_string ?r') \<le> 2 ^ 32" by simp
  have p: "get_ids ?r' [''AAPL'', ''BTCUSD''] =
    (fst (get_ids ?r' [''AAPL'', ''BTCUSD'']), snd (get_ids ?r' [''AAPL'', ''BTCUSD'']))"
    by simp
  from round_trip [OF reachable_empty g l p] g l reachable_empty show ?thesis by simp
qed

text \<open>
  Beyond that capacity claim C2 does not hold: after \<open>2^32\<close> different symbols, the next one
  is given the ID \<open>2^32\<close> cast to \<open>uint32_t\<close>, which is 0, and \<open>get_symbol 0\<close> is the first
  symbol registered, not the one that was given the ID.
\<close>

theorem round_trip_counterexample:
  "get_symbol (snd (get_id (snd (get_ids empty_registry (many_symbols (2 ^ 32)))) (bits (2 ^ 32))))
              (fst (get_id (snd (get_ids empty_registry (many_symbols (2 ^ 32)))) (bits (2 ^ 32))))
   \<noteq> Inr (bits (2 ^ 32))"
proof -
  have "(many_symbols (2 ^ 32) @ [bits (2 ^ 32)]) ! 0 = bits 0"
    by (simp add: nth_append length_many_symbols many_symbols_def)
  moreover have "bits 0 \<noteq> bits (2 ^ 32)" using bits_inj [of 0 "2 ^ 32"] by auto
  ultimately show ?thesis
    by (simp add: get_id_overflow [simplified] get_symbol_def length_many_symbols)
qed

subsection \<open>Cross-path equivalence\<close>

lemma count_id_matches_eq:
  "count_id_matches f fanout incoming_id target_id matches =
     (if incoming_id = target_id then matches + of_nat (fanout - f) else matches)"
proof (induction f fanout incoming_id target_id matches rule: count_id_matches.induct)
  case (1 f fanout incoming_id target_id matches)
  show ?case
  proof (cases "f < fanout")
    case True
    then have "fanout - f = Suc (fanout - Suc f)" by simp
    with True "1.IH" show ?thesis
      by (subst count_id_matches.simps) (simp add: add.assoc)
  next
    case False
    then show ?thesis by (subst count_id_matches.simps) simp
  qed
qed

lemma count_string_matches_eq:
  "count_string_matches f fanout symb target_string matches =
     (if symb = target_string then matches + of_nat (fanout - f) else matches)"
proof (induction f fanout symb target_string matches rule: count_string_matches.induct)
  case (1 f fanout symb target_string matches)
  show ?case
  proof (cases "f < fanout")
    case True
    then have "fanout - f = Suc (fanout - Suc f)" by simp
    with True "1.IH" show ?thesis
      by (subst count_string_matches.simps) (simp add: add.assoc)
  next
    case False
    then show ?thesis by (subst count_string_matches.simps) simp
  qed
qed

text \<open>The ID comparison decides symbol equality while the table holds at most \<open>2^32\<close> symbols.\<close>

lemma get_id_compare:
  assumes inv: "registry_inv r"
    and target: "string_to_id r target_string = Some target_id"
    and cap: "length (id_to_string (snd (get_id r symb))) \<le> 2 ^ 32"
  shows "fst (get_id r symb) = target_id \<longleftrightarrow> symb = target_string"
proof -
  let ?r' = "snd (get_id r symb)"
  have inv': "registry_inv ?r'" using inv by (rule registry_inv_get_id)
  have a: "string_to_id ?r' symb = Some (fst (get_id r symb))" by (rule get_id_assigns)
  have b: "string_to_id ?r' target_string = Some target_id" using target by (rule get_id_keeps)
  from registry_inv_lookup [OF inv' cap a] registry_inv_lookup [OF inv' cap b]
  have "fst (get_id r symb) = target_id \<Longrightarrow> symb = target_string" by metis
  moreover from a b have "symb = target_string \<Longrightarrow> fst (get_id r symb) = target_id" by simp
  ultimately show ?thesis by blast
qed

lemma capacity_step:
  assumes inv: "registry_inv r"
    and cap: "card (set (id_to_string r) \<union> set (symb # incoming)) \<le> n"
  shows "length (id_to_string (snd (get_id r symb))) \<le> n"
    and "card (set (id_to_string (snd (get_id r symb))) \<union> set incoming) \<le> n"
proof -
  let ?r' = "snd (get_id r symb)"
  have inv': "registry_inv ?r'" using inv by (rule registry_inv_get_id)
  have s: "set (id_to_string ?r') = set (id_to_string r) \<union> {symb}"
    using registry_inv_dom [OF inv] by (auto simp: get_id_table)
  then have eq: "set (id_to_string ?r') \<union> set incoming =
      set (id_to_string r) \<union> set (symb # incoming)" by auto
  with cap show "card (set (id_to_string ?r') \<union> set incoming) \<le> n" by simp
  have "length (id_to_string ?r') = card (set (id_to_string ?r'))"
    using inv' by (simp add: registry_inv_def distinct_card)
  also have "\<dots> \<le> card (set (id_to_string r) \<union> set (symb # incoming))"
    by (rule card_mono) (auto simp: s)
  finally show "length (id_to_string ?r') \<le> n" using cap by simp
qed

lemma registry_fanout_direct:
  assumes "registry_inv r"
    and "string_to_id r target_string = Some target_id"
    and "card (set (id_to_string r) \<union> set incoming) \<le> 2 ^ 32"
  shows "fst (registry_fanout r target_id fanout incoming matches) =
         direct_fanout target_string fanout incoming matches"
  using assms
proof (induction incoming arbitrary: r matches)
  case Nil
  then show ?case by simp
next
  case (Cons symb incoming)
  let ?r' = "snd (get_id r symb)"
  have inv': "registry_inv ?r'" using Cons.prems(1) by (rule registry_inv_get_id)
  have target': "string_to_id ?r' target_string = Some target_id"
    using Cons.prems(2) by (rule get_id_keeps)
  note cap = capacity_step [OF Cons.prems(1) Cons.prems(3)]
  have cmp: "fst (get_id r symb) = target_id \<longleftrightarrow> symb = target_string"
    using Cons.prems(1,2) cap(1) by (rule get_id_compare)
  have "count_id_matches 0 fanout (fst (get_id r symb)) target_id matches =
        count_string_matches 0 fanout symb target_string matches"
    by (simp only: count_id_matches_eq count_string_matches_eq cmp)
  with Cons.IH [OF inv' target' cap(2)] show ?case
    by (simp add: case_prod_unfold)
qed

lemma registry_1to1_direct:
  assumes "registry_inv r"
    and "string_to_id r target_string = Some target_id"
    and "card (set (id_to_string r) \<union> set incoming) \<le> 2 ^ 32"
  shows "fst (registry_1to1 r target_id incoming matches) =
         direct_1to1 target_string incoming matches"
  using assms
proof (induction incoming arbitrary: r matches)
  case Nil
  then show ?case by simp
next
  case (Cons symb incoming)
  let ?r' = "snd (get_id r symb)"
  have inv': "registry_inv ?r'" using Cons.prems(1) by (rule registry_inv_get_id)
  have target': "string_to_id ?r' target_string = Some target_id"
    using Cons.prems(2) by (rule get_id_keeps)
  note cap = capacity_step [OF Cons.prems(1) Cons.prems(3)]
  have cmp: "fst (get_id r symb) = target_id \<longleftrightarrow> symb = target_string"
    using Cons.prems(1,2) cap(1) by (rule get_id_compare)
  with Cons.IH [OF inv' target' cap(2)] show ?case
    by (simp add: case_prod_unfold)
qed

text \<open>
  Claim C1 (cross-path equivalence), within the capacity of the ID type: for a reachable registry in which the target
  has the ID \<open>target_id\<close>, an incoming stream such that the symbols of the registry and of
  the stream together are at most \<open>2^32\<close> different values, and any fanout, the match count
  of the registry path equals the match count of the direct path, in the fanout loops and in
  the 1-to-1 loops alike.
\<close>

theorem cross_path_equivalence:
  assumes "reachable r"
    and "string_to_id r target_string = Some target_id"
    and "card (set (id_to_string r) \<union> set incoming) \<le> 2 ^ 32"
  shows "fst (registry_fanout r target_id fanout incoming 0) =
           direct_fanout target_string fanout incoming 0 \<and>
         fst (registry_1to1 r target_id incoming 0) = direct_1to1 target_string incoming 0"
  using registry_fanout_direct [OF reachable_inv [OF assms(1)] assms(2,3)]
    registry_1to1_direct [OF reachable_inv [OF assms(1)] assms(2,3)]
  by simp

text \<open>
  The stream BTCUSD, AAPL, BTCUSD with target BTCUSD: 8 matches on either path at fanout 4,
  and 2 in the 1-to-1 loops.
\<close>

theorem cross_path_equivalence_witness:
  "reachable (snd (get_id empty_registry ''BTCUSD'')) \<and>
   string_to_id (snd (get_id empty_registry ''BTCUSD'')) ''BTCUSD'' = Some 0 \<and>
   card (set (id_to_string (snd (get_id empty_registry ''BTCUSD''))) \<union>
         set [''BTCUSD'', ''AAPL'', ''BTCUSD'']) \<le> 2 ^ 32 \<and>
   fst (registry_fanout (snd (get_id empty_registry ''BTCUSD'')) 0 4
          [''BTCUSD'', ''AAPL'', ''BTCUSD''] 0) = 8 \<and>
   direct_fanout ''BTCUSD'' 4 [''BTCUSD'', ''AAPL'', ''BTCUSD''] 0 = 8 \<and>
   fst (registry_1to1 (snd (get_id empty_registry ''BTCUSD'')) 0
          [''BTCUSD'', ''AAPL'', ''BTCUSD''] 0) = 2"
proof -
  let ?r = "snd (get_id empty_registry ''BTCUSD'')"
  have r: "reachable ?r" by (intro reachable_get_id reachable_empty)
  have t: "string_to_id ?r ''BTCUSD'' = Some 0"
    by (simp add: get_id_def empty_registry_def)
  have c: "card (set (id_to_string ?r) \<union> set [''BTCUSD'', ''AAPL'', ''BTCUSD'']) \<le> 2 ^ 32"
    by (simp add: get_id_def empty_registry_def card_insert_if)
  have d: "direct_fanout ''BTCUSD'' 4 [''BTCUSD'', ''AAPL'', ''BTCUSD''] 0 = 8"
    by (simp add: count_string_matches_eq)
  have e: "direct_1to1 ''BTCUSD'' [''BTCUSD'', ''AAPL'', ''BTCUSD''] 0 = 2"
    by simp
  from cross_path_equivalence [OF r t c, of 4] r t c d e show ?thesis by simp
qed

lemma direct_fanout_absent:
  "target_string \<notin> set incoming \<Longrightarrow> direct_fanout target_string fanout incoming matches = matches"
  by (induction incoming arbitrary: matches) (auto simp: count_string_matches_eq)

lemma registry_fanout_append:
  "registry_fanout r target_id fanout (xs @ ys) matches =
     (case registry_fanout r target_id fanout xs matches of
        (matches', r') \<Rightarrow> registry_fanout r' target_id fanout ys matches')"
  by (induction xs arbitrary: r matches) (simp_all split: prod.splits)

lemma registry_fanout_registry:
  "snd (registry_fanout r target_id fanout incoming matches) = snd (get_ids r incoming)"
  by (induction incoming arbitrary: r matches) (simp_all split: prod.splits)

lemma many_symbols_Suc: "many_symbols (Suc n) = many_symbols n @ [bits n]"
  by (simp add: many_symbols_def)

lemma card_many_symbols: "card (set (many_symbols n)) = n"
  using distinct_card [OF distinct_many_symbols, of n] by (simp add: length_many_symbols)

text \<open>
  The overflowing run: the target is registered first and gets ID 0; the workload then brings
  \<open>2^32\<close> further symbols, all different from the target. The last of them is the
  \<open>(2^32 + 1)\<close>-st symbol of the table, and its ID is \<open>2^32\<close> cast to \<open>uint32_t\<close>, that is 0.
\<close>

lemma overflow_run:
  defines "target \<equiv> bits (2 ^ 32)"
  defines "r0 \<equiv> snd (get_id empty_registry target)"
  shows "fst (registry_fanout r0 0 1 (many_symbols (2 ^ 32)) 0) = 1"
    and "direct_fanout target 1 (many_symbols (2 ^ 32)) 0 = 0"
    and "fst (get_id empty_registry target) = 0"
proof -
  let ?n = "4294967295 :: nat"
  have split: "many_symbols 4294967296 = many_symbols ?n @ [bits ?n]"
    using many_symbols_Suc [of ?n] by simp
  have tid: "get_id empty_registry target = (0, r0)"
    and tab0: "id_to_string r0 = [target]"
    and look0: "string_to_id r0 target = Some 0"
    by (simp_all add: r0_def get_id_def empty_registry_def)
  show "fst (get_id empty_registry target) = 0" using tid by simp
  have inv0: "registry_inv r0"
    unfolding r0_def by (rule registry_inv_get_id [OF registry_inv_empty])
  have fresh: "target \<notin> set (many_symbols (2 ^ 32))"
    unfolding target_def by (rule bits_fresh)
  then have fresh': "target \<notin> set (many_symbols ?n)" by (simp add: split)
  show "direct_fanout target 1 (many_symbols (2 ^ 32)) 0 = 0"
    using fresh by (rule direct_fanout_absent)
  \<comment> \<open>the first \<open>2^32 - 1\<close> elements: the table stays within the ID range, no match\<close>
  have "card (set (id_to_string r0) \<union> set (many_symbols ?n)) \<le> Suc ?n"
    using card_many_symbols [of ?n] fresh' by (simp add: tab0)
  then have cap: "card (set (id_to_string r0) \<union> set (many_symbols ?n)) \<le> 2 ^ 32" by simp
  have pre: "fst (registry_fanout r0 0 1 (many_symbols ?n) 0) = 0"
    using registry_fanout_direct [OF inv0 look0 cap, of 1 0] fresh'
    by (simp add: direct_fanout_absent)
  \<comment> \<open>the registry after them holds the target and these symbols\<close>
  let ?r1 = "snd (get_ids r0 (many_symbols ?n))"
  have inv1: "registry_inv ?r1" using inv0 by (rule registry_inv_get_ids)
  have tab1: "id_to_string ?r1 = target # many_symbols ?n"
    using get_ids_fresh_table [OF inv0 distinct_many_symbols, of ?n] fresh'
    by (simp add: tab0)
  have "bits ?n \<noteq> target"
    unfolding target_def using bits_inj [of ?n "2 ^ 32"] by auto
  then have "bits ?n \<notin> set (id_to_string ?r1)"
    using bits_fresh [of ?n] by (simp add: tab1)
  then have "string_to_id ?r1 (bits ?n) = None"
    using registry_inv_dom [OF inv1] by (metis domIff)
  from get_id_fresh [OF this] have last: "fst (get_id ?r1 (bits ?n)) = 0"
    by (simp add: tab1 length_many_symbols uint32_wrap)
  have "registry_fanout r0 0 1 (many_symbols ?n) 0 = (0, ?r1)"
    using pre registry_fanout_registry [of r0 0 1 "many_symbols ?n" 0]
    by (metis prod.collapse)
  then show "fst (registry_fanout r0 0 1 (many_symbols (2 ^ 32)) 0) = 1"
    using last by (simp add: split registry_fanout_append count_id_matches_eq case_prod_unfold)
qed

text \<open>
  Beyond that capacity claim C1 does not hold: at fanout 1, on a fresh registry with the
  target \<open>bits (2^32)\<close> and the workload \<open>many_symbols (2^32)\<close>, the registry path counts one
  match and the direct path none.
\<close>

theorem cross_path_equivalence_counterexample:
  "fst (registry_fanout (snd (get_id empty_registry (bits (2 ^ 32))))
          (fst (get_id empty_registry (bits (2 ^ 32)))) 1 (many_symbols (2 ^ 32)) 0)
   \<noteq> direct_fanout (bits (2 ^ 32)) 1 (many_symbols (2 ^ 32)) 0"
  using overflow_run by simp

subsection \<open>Density and uniqueness of the IDs\<close>

lemma ran_the_dom: "ran m = (\<lambda>k. the (m k)) ` dom m"
  by (force simp: ran_def dom_def image_iff)

text \<open>
  Claim C3 (density and uniqueness), within the capacity of the ID type: after any sequence \<open>ss\<close> of \<open>get_id\<close> calls on
  a fresh registry, with \<open>k\<close> different symbols among them, repeats anywhere, and
  \<open>k \<le> 2^32\<close>: the IDs returned are exactly \<open>0, \<dots>, k - 1\<close>, they are the IDs the forward
  map holds, the map's keys are the symbols of \<open>ss\<close>, and no two different symbols have the
  same ID.
\<close>

theorem dense_unique_ids:
  assumes "get_ids empty_registry ss = (ids, r)"
    and "card (set ss) \<le> 2 ^ 32"
  shows "unat ` set ids = {0..<card (set ss)} \<and>
         set ids = ran (string_to_id r) \<and>
         dom (string_to_id r) = set ss \<and>
         inj_on (\<lambda>s. the (string_to_id r s)) (set ss) \<and>
         card (set ids) = card (set ss)"
proof -
  have r: "r = snd (get_ids empty_registry ss)" and ids: "ids = fst (get_ids empty_registry ss)"
    using assms(1) by simp_all
  have inv: "registry_inv r" unfolding r by (rule registry_inv_get_ids [OF registry_inv_empty])
  have tab: "set (id_to_string r) = set ss"
    unfolding r using get_ids_table_set [OF registry_inv_empty, of ss]
    by (simp add: empty_registry_def)
  have len: "length (id_to_string r) = card (set ss)"
    using inv tab by (metis distinct_card registry_inv_def)
  have cap: "length (id_to_string r) \<le> 2 ^ 32" using len assms(2) by simp
  have dom: "dom (string_to_id r) = set ss" using registry_inv_dom [OF inv] tab by simp
  have "ids = map (\<lambda>s. the (string_to_id r s)) ss"
    unfolding ids r by (rule get_ids_returned)
  then have "set ids = (\<lambda>s. the (string_to_id r s)) ` dom (string_to_id r)"
    by (simp add: dom)
  then have ran: "set ids = ran (string_to_id r)" by (simp add: ran_the_dom)
  have "unat ` set ids = (\<lambda>k. unat (of_nat k :: uint32_t)) ` {0..<card (set ss)}"
    by (simp add: ran registry_inv_ran [OF inv] len image_image)
  also have "\<dots> = (\<lambda>k. k) ` {0..<card (set ss)}"
    using assms(2) by (intro image_cong refl unat_of_nat_32) simp
  finally have dense: "unat ` set ids = {0..<card (set ss)}" by simp
  have inj: "inj_on (\<lambda>s. the (string_to_id r s)) (set ss)"
  proof (rule inj_onI)
    fix s t
    assume s: "s \<in> set ss" and t: "t \<in> set ss"
      and eq: "the (string_to_id r s) = the (string_to_id r t)"
    from s t dom obtain i j where i: "string_to_id r s = Some i" and j: "string_to_id r t = Some j"
      by blast
    from eq i j have "i = j" by simp
    with registry_inv_lookup [OF inv cap i] registry_inv_lookup [OF inv cap j]
    show "s = t" by simp
  qed
  have "card (unat ` set ids) = card (set ids)"
    by (rule card_image) (simp add: inj_on_def word_unat_eq_iff)
  with dense have "card (set ids) = card (set ss)" by simp
  with dense ran dom inj show ?thesis by simp
qed

text \<open>
  Five calls with three different symbols: the IDs returned are 0, 1, 0, 2, 1.
\<close>

theorem dense_unique_ids_witness:
  "get_ids empty_registry [''AAPL'', ''MSFT'', ''AAPL'', ''BTCUSD'', ''MSFT''] =
     ([0, 1, 0, 2, 1], snd (get_ids empty_registry [''AAPL'', ''MSFT'', ''AAPL'', ''BTCUSD'', ''MSFT''])) \<and>
   card (set [''AAPL'', ''MSFT'', ''AAPL'', ''BTCUSD'', ''MSFT'']) = 3 \<and>
   unat ` set [0, 1, 0, 2, 1 :: uint32_t] = {0..<3}"
proof -
  let ?ss = "[''AAPL'', ''MSFT'', ''AAPL'', ''BTCUSD'', ''MSFT'']"
  have g: "get_ids empty_registry ?ss = ([0, 1, 0, 2, 1], snd (get_ids empty_registry ?ss))"
    by (simp add: get_id_def empty_registry_def)
  have c: "card (set ?ss) = 3" by (simp add: card_insert_if)
  then have c': "card (set ?ss) \<le> 2 ^ 32" by simp
  have "unat ` set [0, 1, 0, 2, 1 :: uint32_t] = {0..<card (set ?ss)}"
    by (rule dense_unique_ids [OF g c', THEN conjunct1])
  then have d: "unat ` set [0, 1, 0, 2, 1 :: uint32_t] = {0..<3}" by (simp only: c)
  show ?thesis by (intro conjI g c d)
qed

text \<open>
  Beyond that capacity claim C3 does not hold: an ID is a \<open>uint32_t\<close>, so that for
  \<open>k = 2^32 + 1\<close> different symbols the IDs returned cannot be all of \<open>0, \<dots>, 2^32\<close>.
\<close>

theorem dense_unique_ids_counterexample:
  "unat ` set (fst (get_ids empty_registry (many_symbols (2 ^ 32 + 1)))) \<noteq>
   {0..<card (set (many_symbols (2 ^ 32 + 1)))}"
proof
  assume "unat ` set (fst (get_ids empty_registry (many_symbols (2 ^ 32 + 1)))) =
    {0..<card (set (many_symbols (2 ^ 32 + 1)))}"
  then have "(2 ^ 32 :: nat) \<in> unat ` set (fst (get_ids empty_registry (many_symbols (2 ^ 32 + 1))))"
    by (simp only: card_many_symbols) simp
  then obtain w :: uint32_t where "unat w = 2 ^ 32" by auto
  moreover have "unat w < 2 ^ 32" using unsigned_less [of w] by simp
  ultimately show False by simp
qed

subsection \<open>The workload generator\<close>

lemma length_SYMBOL_POOL: "length SYMBOL_POOL = 45"
  by (simp add: SYMBOL_POOL_def)

lemma stream_loop_eq:
  assumes "\<And>g. 0 \<le> fst (pick g) \<and> nat (fst (pick g)) < length SYMBOL_POOL"
  shows "stream_loop pick i n rng stream =
           Inr (stream @ map (\<lambda>j. SYMBOL_POOL ! nat (nth_draw pick rng j)) [0..<n - i])"
  using assms
proof (induction pick i n rng stream rule: stream_loop.induct)
  case (1 pick i n rng stream)
  show ?case
  proof (cases "i < n")
    case False
    then show ?thesis by (subst stream_loop.simps) simp
  next
    case True
    obtain k rng' where p: "pick rng = (k, rng')" by (cases "pick rng")
    have ok: "0 \<le> k \<and> nat k < length SYMBOL_POOL" using "1.prems" [of rng] by (simp add: p)
    have step: "stream_loop pick i n rng stream =
        stream_loop pick (Suc i) n rng' (stream @ [SYMBOL_POOL ! nat k])"
      using True ok by (subst stream_loop.simps) (simp add: p)
    have n: "n - i = Suc (n - Suc i)" using True by simp
    have "map (\<lambda>j. SYMBOL_POOL ! nat (nth_draw pick rng j)) [0..<n - i] =
          SYMBOL_POOL ! nat k # map (\<lambda>j. SYMBOL_POOL ! nat (nth_draw pick rng' j)) [0..<n - Suc i]"
      unfolding n by (simp only: map_upt_Suc) (simp add: p)
    with "1.IH" [OF True p [symmetric] ok "1.prems"] step show ?thesis by simp
  qed
qed

lemma nth_draw_range:
  assumes "\<And>g. lo \<le> fst (pick g) \<and> fst (pick g) \<le> hi"
  shows "lo \<le> nth_draw pick rng i \<and> nth_draw pick rng i \<le> hi"
  using assms by (induction i arbitrary: rng) simp_all

lemma stream_loop_no_length_error: "stream_loop pick i n rng stream \<noteq> Inl LengthError"
proof (induction pick i n rng stream rule: stream_loop.induct)
  case (1 pick i n rng stream)
  then show ?case
    by (subst stream_loop.simps) (auto split: prod.splits)
qed

lemma generate_stream:
  assumes "\<forall>a b g. a \<le> b \<longrightarrow> a \<le> fst (dist a b g) \<and> fst (dist a b g) \<le> b"
    and "n \<le> vector_max_size"
  shows "generate_incoming_stream mt dist n seed =
           Inr (map (\<lambda>j. SYMBOL_POOL ! nat (nth_draw (dist 0 44) (mt seed) j)) [0..<n])"
    and "set (map (\<lambda>j. SYMBOL_POOL ! nat (nth_draw (dist 0 44) (mt seed) j)) [0..<n])
           \<subseteq> set SYMBOL_POOL"
proof -
  let ?pick = "dist 0 44"
  let ?s = "map (\<lambda>j. SYMBOL_POOL ! nat (nth_draw ?pick (mt seed) j)) [0..<n]"
  have range: "0 \<le> fst (?pick g) \<and> fst (?pick g) \<le> 44" for g
    using assms(1) [rule_format, of 0 44 g] by simp
  have ok: "0 \<le> fst (?pick g) \<and> nat (fst (?pick g)) < length SYMBOL_POOL" for g
    using range [of g] by (simp add: length_SYMBOL_POOL) arith
  have "stream_loop ?pick 0 n (mt seed) [] = Inr ?s"
    using stream_loop_eq [of ?pick 0 n "mt seed" "[]", OF ok] by simp
  then show "generate_incoming_stream mt dist n seed = Inr ?s"
    using assms(2) by (simp add: generate_incoming_stream_def length_SYMBOL_POOL)
  show "set ?s \<subseteq> set SYMBOL_POOL"
  proof
    fix x assume "x \<in> set ?s"
    then obtain j where "x = SYMBOL_POOL ! nat (nth_draw ?pick (mt seed) j)" by auto
    moreover have "0 \<le> nth_draw ?pick (mt seed) j \<and> nth_draw ?pick (mt seed) j \<le> 44"
      by (rule nth_draw_range [OF range])
    then have "nat (nth_draw ?pick (mt seed) j) < length SYMBOL_POOL"
      by (simp add: length_SYMBOL_POOL) arith
    ultimately show "x \<in> set SYMBOL_POOL" by simp
  qed
qed

lemma generate_length_error:
  "vector_max_size < n \<Longrightarrow> generate_incoming_stream mt dist n seed = Inl LengthError"
  by (simp add: generate_incoming_stream_def)

lemma generate_no_length_error:
  "n \<le> vector_max_size \<Longrightarrow> generate_incoming_stream mt dist n seed \<noteq> Inl LengthError"
  by (simp add: generate_incoming_stream_def stream_loop_no_length_error)

text \<open>
  Claim C8 (reproducibility), for the counts the generator accepts: with a distribution that
  keeps its values within its bounds, as the standard library's does, and a count \<open>n\<close> of
  at most \<open>max_size\<close>, the call returns a sequence of exactly \<open>n\<close> elements, each one an
  entry of the symbol pool, and element \<open>i\<close> is the pool entry of the \<open>i\<close>-th draw of the
  engine seeded with \<open>seed\<close>: the sequence is fixed by count and seed, so that two calls
  with the same arguments yield sequences of length \<open>n\<close> that are equal element by element.
  For a count above \<open>max_size\<close> the call throws \<open>std::length_error\<close>.
\<close>

theorem generate_reproducible:
  assumes "\<forall>a b g. a \<le> b \<longrightarrow> a \<le> fst (dist a b g) \<and> fst (dist a b g) \<le> b"
  shows "(n \<le> vector_max_size \<longrightarrow>
            (\<exists>stream. generate_incoming_stream mt dist n seed = Inr stream \<and>
                length stream = n \<and> set stream \<subseteq> set SYMBOL_POOL \<and>
                (\<forall>i < n. stream ! i = SYMBOL_POOL ! nat (nth_draw (dist 0 44) (mt seed) i)))) \<and>
         (vector_max_size < n \<longrightarrow> generate_incoming_stream mt dist n seed = Inl LengthError) \<and>
         (\<forall>s1 s2. generate_incoming_stream mt dist n seed = Inr s1 \<and>
                  generate_incoming_stream mt dist n seed = Inr s2 \<longrightarrow>
                  length s1 = n \<and> length s2 = n \<and> (\<forall>i < n. s1 ! i = s2 ! i))"
proof -
  let ?s = "map (\<lambda>j. SYMBOL_POOL ! nat (nth_draw (dist 0 44) (mt seed) j)) [0..<n]"
  note gen = generate_stream [OF assms, of n mt seed]
  have "\<exists>stream. generate_incoming_stream mt dist n seed = Inr stream \<and>
                length stream = n \<and> set stream \<subseteq> set SYMBOL_POOL \<and>
                (\<forall>i < n. stream ! i = SYMBOL_POOL ! nat (nth_draw (dist 0 44) (mt seed) i))"
    if "n \<le> vector_max_size"
    using gen [OF that] by (intro exI [of _ ?s]) simp
  moreover have "length s1 = n \<and> length s2 = n \<and> (\<forall>i < n. s1 ! i = s2 ! i)"
    if "generate_incoming_stream mt dist n seed = Inr s1"
      "generate_incoming_stream mt dist n seed = Inr s2" for s1 s2
  proof -
    have "n \<le> vector_max_size"
      using that(1) generate_length_error [of n mt dist seed]
      by (cases "vector_max_size < n") auto
    from gen(1) [OF this] that show ?thesis by auto
  qed
  ultimately show ?thesis using generate_length_error by blast
qed

lemma counter_distribution_range:
  "\<forall>a b g. a \<le> b \<longrightarrow> a \<le> fst (counter_distribution a b g) \<and>
                       fst (counter_distribution a b g) \<le> b"
proof (intro allI impI)
  fix a b :: int and g :: nat
  assume "a \<le> b"
  then have pos: "0 < nat (b - a + 1)" by simp
  then have "g mod nat (b - a + 1) < nat (b - a + 1)" by simp
  then have "int (g mod nat (b - a + 1)) < int (nat (b - a + 1))"
    by (simp only: of_nat_less_iff)
  with pos have "int (g mod nat (b - a + 1)) < b - a + 1" by simp
  then show "a \<le> fst (counter_distribution a b g) \<and> fst (counter_distribution a b g) \<le> b"
    by (simp add: counter_distribution_def)
qed

lemma generate_sample:
  "generate_incoming_stream counter_engine counter_distribution 3 42 =
     Inr [''SOLUSD'', ''NVDA'', ''QQQ'']"
  by (simp add: generate_incoming_stream_def counter_engine_def counter_distribution_def
      stream_loop.simps SYMBOL_POOL_def vector_max_size_def)

text \<open>
  The counter engine keeps within the bounds; seeded with 42 it draws the pool entries 42, 4
  and 11, and the stream of three elements is made of these. The count \<open>2^64 - 1\<close> is above
  \<open>max_size\<close> and yields no stream.
\<close>

theorem generate_reproducible_witness:
  "3 \<le> vector_max_size \<and>
   generate_incoming_stream counter_engine counter_distribution 3 42 =
     Inr [''SOLUSD'', ''NVDA'', ''QQQ''] \<and>
   length [''SOLUSD'', ''NVDA'', ''QQQ''] = 3 \<and>
   set [''SOLUSD'', ''NVDA'', ''QQQ''] \<subseteq> set SYMBOL_POOL \<and>
   nth_draw (counter_distribution 0 44) (counter_engine 42) 0 = 42 \<and>
   nth_draw (counter_distribution 0 44) (counter_engine 42) 1 = 4 \<and>
   nth_draw (counter_distribution 0 44) (counter_engine 42) 2 = 11 \<and>
   vector_max_size < 18446744073709551615 \<and>
   generate_incoming_stream counter_engine counter_distribution 18446744073709551615 42 =
     Inl LengthError"
proof -
  note c = counter_distribution_range
  have m: "3 \<le> vector_max_size" "vector_max_size < 18446744073709551615"
    by (simp_all add: vector_max_size_def)
  have e: "counter_engine 42 = 42" by (simp add: counter_engine_def)
  have "nth_draw (counter_distribution 0 44) 42 0 = 42"
    "nth_draw (counter_distribution 0 44) 42 (Suc 0) = 4"
    "nth_draw (counter_distribution 0 44) 42 (Suc (Suc 0)) = 11"
    by (simp_all add: counter_distribution_def)
  then have d: "nth_draw (counter_distribution 0 44) (counter_engine 42) 0 = 42"
    "nth_draw (counter_distribution 0 44) (counter_engine 42) 1 = 4"
    "nth_draw (counter_distribution 0 44) (counter_engine 42) 2 = 11"
    by (simp_all add: e numeral_2_eq_2)
  from generate_reproducible [OF c, of 3 counter_engine 42]
    generate_reproducible [OF c, of 18446744073709551615 counter_engine 42] m generate_sample d
  show ?thesis by simp
qed

text \<open>
  Claim C8 does not hold of a count above \<open>max_size\<close>: for \<open>2^64 - 1\<close>, the count of the
  argument \<open>-1\<close>, \<open>reserve\<close> throws and the call produces no sequence.
\<close>

theorem generate_reproducible_counterexample:
  "generate_incoming_stream counter_engine counter_distribution 18446744073709551615 42 =
     Inl LengthError"
  by (simp add: generate_incoming_stream_def vector_max_size_def)

subsection \<open>Decimal numerals\<close>

lemma digit_cases: "d < 10 \<Longrightarrow> d \<in> {0, 1, 2, 3, 4, 5, 6, 7, 8, 9 :: nat}"
  by auto

lemma digit_isdigit: "d < 10 \<Longrightarrow> isdigit (digit d)"
  using digit_cases [of d] by (auto simp: digit_def isdigit_def)

lemma digit_value: "d < 10 \<Longrightarrow> (of_char (digit d) :: int) - 48 = int d"
  using digit_cases [of d] by (auto simp: digit_def)

lemma decimal_digits: "list_all isdigit (decimal n)"
proof (induction n rule: decimal.induct)
  case (1 n)
  then show ?case by (subst decimal.simps) (simp add: digit_isdigit)
qed

lemma decimal_nonempty: "decimal n \<noteq> []"
  by (subst decimal.simps) simp

lemma digits_value_append:
  "list_all isdigit xs \<Longrightarrow> digits_value acc (xs @ ys) = digits_value (digits_value acc xs) ys"
  by (induction xs arbitrary: acc) simp_all

lemma digits_value_stop:
  "(case ys of [] \<Rightarrow> True | c # cs \<Rightarrow> \<not> isdigit c) \<Longrightarrow> digits_value acc ys = acc"
  by (cases ys) simp_all

lemma digits_value_decimal: "digits_value 0 (decimal n) = int n"
proof (induction n rule: decimal.induct)
  case (1 n)
  show ?case
  proof (cases "n < 10")
    case True
    then show ?thesis by (subst decimal.simps) (simp add: digit_isdigit digit_value)
  next
    case False
    have "digits_value 0 (decimal (n div 10) @ [digit (n mod 10)]) =
          digits_value (int (n div 10)) [digit (n mod 10)]"
      using "1.IH" [OF False] by (simp add: digits_value_append decimal_digits)
    also have "\<dots> = int (n div 10) * 10 + int (n mod 10)"
      by (simp add: digit_isdigit digit_value)
    also have "\<dots> = int n" by (simp add: zdiv_int zmod_int)
    finally show ?thesis using False by (subst decimal.simps) simp
  qed
qed

lemma decimal_inj: "decimal m = decimal n \<Longrightarrow> m = n"
  by (metis digits_value_decimal of_nat_eq_iff)

lemma isdigit_not_space: "isdigit c \<Longrightarrow> \<not> isspace c"
  by (auto simp: isdigit_def isspace_def)

lemma isdigit_not_sign: "isdigit c \<Longrightarrow> c \<noteq> CHR ''-'' \<and> c \<noteq> CHR ''+''"
  by (auto simp: isdigit_def)

lemma decimal_head: "\<exists>c cs. decimal n = c # cs \<and> isdigit c"
  using decimal_digits [of n] decimal_nonempty [of n] by (cases "decimal n") simp_all

lemma atoll_decimal:
  assumes "n < 2 ^ 63"
  shows "atoll (decimal n) = int n"
proof -
  obtain c cs where d: "decimal n = c # cs" "isdigit c" using decimal_head by blast
  have "dropWhile isspace (decimal n) = decimal n"
    using d by (simp add: isdigit_not_space)
  then have "atoll (decimal n) = max (- (2 ^ 63)) (min (2 ^ 63 - 1) (digits_value 0 (decimal n)))"
    using d isdigit_not_sign [OF d(2)] by (simp add: atoll_def Let_def)
  then show ?thesis using assms by (simp add: digits_value_decimal)
qed

lemma atoll_minus_decimal:
  assumes "n \<le> 2 ^ 63"
  shows "atoll (CHR ''-'' # decimal n) = - int n"
proof -
  have "\<not> isspace CHR ''-''" by (simp add: isspace_def)
  then have "atoll (CHR ''-'' # decimal n) =
      max (- (2 ^ 63)) (min (2 ^ 63 - 1) (- digits_value 0 (decimal n)))"
    by (simp add: atoll_def Let_def)
  then show ?thesis using assms by (simp add: digits_value_decimal)
qed

subsection \<open>The iteration count\<close>

text \<open>
  Claim C6 does not hold of a non-numeric argument: for \<open>abc\<close> the count is 0, not
  10,000,000.
\<close>

theorem iterations_counterexample:
  "ITERATIONS [''string-interning'', ''abc''] = 0 \<and>
   ITERATIONS [''string-interning'', ''abc''] \<noteq> 10000000"
  by (simp add: ITERATIONS_def atoll_def isspace_def isdigit_def)

lemma atoll_no_conversion:
  assumes "no_conversion nptr"
  shows "atoll nptr = 0"
proof (cases "dropWhile isspace nptr")
  case Nil
  have "atoll nptr = max (- (2 ^ 63)) (min (2 ^ 63 - 1) 0)"
    by (simp only: atoll_def Let_def Nil list.case)
  then show ?thesis by simp
next
  case (Cons c cs)
  show ?thesis
  proof (cases "c = CHR ''-'' \<or> c = CHR ''+''")
    case True
    with assms Cons have "case cs of [] \<Rightarrow> True | d # ds \<Rightarrow> \<not> isdigit d"
      by (simp add: no_conversion_def)
    then have "digits_value 0 cs = 0" by (rule digits_value_stop)
    with True Cons show ?thesis by (auto simp: atoll_def)
  next
    case False
    with assms Cons have "\<not> isdigit c" by (simp add: no_conversion_def)
    with False Cons show ?thesis by (simp add: atoll_def)
  qed
qed

text \<open>
  Claim C6 (iteration count), as the program has it: without an argument the count is
  10,000,000. With an argument, whatever it is, the count is its \<open>atoll\<close> value cast to
  \<open>size_t\<close>: 0 for an argument in which no number can be read, \<open>n\<close> for the decimal
  numeral of \<open>n < 2^63\<close>, \<open>2^64 - n\<close> for that numeral with a minus sign. The program
  proceeds with this count: up to \<open>max_size\<close> it runs the benchmark on a stream of that
  many pool symbols, above it the \<open>reserve\<close> of the generator throws and \<open>main\<close> does not
  return.
\<close>

theorem iterations_parse:
  assumes "\<forall>a b g. a \<le> b \<longrightarrow> a \<le> fst (dist a b g) \<and> fst (dist a b g) \<le> b"
  shows "(length argv \<le> 1 \<longrightarrow> ITERATIONS argv = 10000000) \<and>
         (1 < length argv \<longrightarrow> ITERATIONS argv = word_of_int (atoll (argv ! 1))) \<and>
         (1 < length argv \<and> no_conversion (argv ! 1) \<longrightarrow> ITERATIONS argv = 0) \<and>
         (1 < length argv \<and> n < 2 ^ 63 \<and> argv ! 1 = decimal n \<longrightarrow>
            ITERATIONS argv = of_nat n) \<and>
         (1 < length argv \<and> n \<le> 2 ^ 63 \<and> argv ! 1 = CHR ''-'' # decimal n \<longrightarrow>
            ITERATIONS argv = - of_nat n) \<and>
         (unat (ITERATIONS argv) \<le> vector_max_size \<longrightarrow>
            (\<exists>incoming. length incoming = unat (ITERATIONS argv) \<and>
               set incoming \<subseteq> set SYMBOL_POOL \<and>
               main mt dist argv = map_option Inr (run_benchmark incoming))) \<and>
         (vector_max_size < unat (ITERATIONS argv) \<longrightarrow>
            main mt dist argv = Some (Inl LengthError))"
proof -
  have "\<exists>incoming. length incoming = unat (ITERATIONS argv) \<and>
               set incoming \<subseteq> set SYMBOL_POOL \<and>
               main mt dist argv = map_option Inr (run_benchmark incoming)"
    if "unat (ITERATIONS argv) \<le> vector_max_size"
  proof -
    let ?s = "map (\<lambda>j. SYMBOL_POOL ! nat (nth_draw (dist 0 44) (mt 42) j))
             [0..<unat (ITERATIONS argv)]"
    note gen = generate_stream [OF assms that, of mt 42]
    have "length ?s = unat (ITERATIONS argv)" by simp
    moreover have "main mt dist argv = map_option Inr (run_benchmark ?s)"
      by (simp add: gen(1) main_def)
    ultimately show ?thesis using gen(2) by blast
  qed
  moreover have "main mt dist argv = Some (Inl LengthError)"
    if "vector_max_size < unat (ITERATIONS argv)"
    using that by (simp add: main_def generate_length_error)
  ultimately show ?thesis
    by (simp add: ITERATIONS_def atoll_no_conversion atoll_decimal atoll_minus_decimal)
qed

text \<open>
  The program name alone, and the program name with the arguments \<open>abc\<close>, \<open>250\<close>,
  \<open>3\<close> and \<open>-1\<close>.
\<close>

theorem iterations_parse_witness:
  "ITERATIONS [''string-interning''] = 10000000 \<and>
   no_conversion ''abc'' \<and>
   ITERATIONS [''string-interning'', ''abc''] = 0 \<and>
   decimal 250 = ''250'' \<and>
   ITERATIONS [''string-interning'', ''250''] = 250 \<and>
   ITERATIONS [''string-interning'', ''-1''] = - 1 \<and>
   unat (ITERATIONS [''string-interning'', ''3'']) = 3 \<and>
   main counter_engine counter_distribution [''string-interning'', ''3''] =
     map_option Inr (run_benchmark [''SOLUSD'', ''NVDA'', ''QQQ'']) \<and>
   main counter_engine counter_distribution [''string-interning'', ''-1''] =
     Some (Inl LengthError)"
proof -
  have c: "\<forall>a b g. a \<le> b \<longrightarrow> a \<le> fst (counter_distribution a b g) \<and>
                       fst (counter_distribution a b g) \<le> b"
    by (rule counter_distribution_range)
  note ip = iterations_parse [OF c, of _ _ counter_engine]
  have n: "no_conversion ''abc''"
    by (simp add: no_conversion_def isspace_def isdigit_def)
  have d: "decimal 250 = ''250''" "decimal 3 = ''3''" "decimal 1 = ''1''"
    by (simp_all add: decimal.simps digit_def)
  have 1: "ITERATIONS [''string-interning''] = 10000000"
    using ip [of "[''string-interning'']" 0, THEN conjunct1] by simp
  have 2: "ITERATIONS [''string-interning'', ''abc''] = 0"
    using ip [of "[''string-interning'', ''abc'']" 0, THEN conjunct2, THEN conjunct2, THEN conjunct1] n
    by simp
  have 3: "ITERATIONS [''string-interning'', ''250''] = 250"
    using ip [of "[''string-interning'', ''250'']" 250, THEN conjunct2, THEN conjunct2, THEN conjunct2,
        THEN conjunct1] d
    by simp
  have 4: "ITERATIONS [''string-interning'', ''-1''] = - 1"
    using ip [of "[''string-interning'', ''-1'']" 1, THEN conjunct2, THEN conjunct2, THEN conjunct2,
        THEN conjunct2, THEN conjunct1] d
    by simp
  have 5: "ITERATIONS [''string-interning'', ''3''] = 3"
    using ip [of "[''string-interning'', ''3'']" 3, THEN conjunct2, THEN conjunct2, THEN conjunct2,
        THEN conjunct1] d
    by simp
  have 6: "main counter_engine counter_distribution [''string-interning'', ''3''] =
     map_option Inr (run_benchmark [''SOLUSD'', ''NVDA'', ''QQQ''])"
    by (simp add: main_def 5 generate_sample)
  have "vector_max_size < unat (ITERATIONS [''string-interning'', ''-1''])"
    by (simp add: 4 unsigned_minus_1_eq_mask mask_eq_exp_minus_1 vector_max_size_def)
  with ip [of "[''string-interning'', ''-1'']" 0]
  have 7: "main counter_engine counter_distribution [''string-interning'', ''-1''] =
     Some (Inl LengthError)" by blast
  from n d 1 2 3 4 5 6 7 show ?thesis by simp
qed

subsection \<open>Zero iterations\<close>

lemma sweep_empty:
  "sweep target_string target_id [] 8 registry sink
     \<lparr>exit_code = 0, cerr = [], runs = [(OneToOne, 0, 0)], fanout_results = []\<rparr> =
   Some zero_outcome"
  by (simp add: sweep.simps zero_outcome_def)

lemma run_benchmark_empty: "run_benchmark [] = Some zero_outcome"
  by (simp add: run_benchmark_def sweep_empty split: prod.splits)

text \<open>
  Claim C10 (zero iterations): for the count 0 the generator returns the empty sequence; on
  the empty sequence the 1-to-1 scenario and the eight fanout points all run, each with the
  match count 0 on both paths, and the program returns 0 with nothing written to
  \<open>std::cerr\<close>. The argument \<open>abc\<close> gives the count 0 and this run.
\<close>

theorem zero_iterations:
  "generate_incoming_stream mt dist 0 seed = Inr [] \<and>
   run_benchmark [] = Some zero_outcome \<and>
   unat (ITERATIONS [''string-interning'', ''abc'']) = 0 \<and>
   main mt dist [''string-interning'', ''abc''] = Some (Inr zero_outcome) \<and>
   exit_code zero_outcome = 0 \<and>
   cerr zero_outcome = [] \<and>
   runs zero_outcome =
     [(OneToOne, 0, 0), (OneToMany 8, 0, 0), (OneToMany 16, 0, 0), (OneToMany 32, 0, 0),
      (OneToMany 64, 0, 0), (OneToMany 128, 0, 0), (OneToMany 256, 0, 0),
      (OneToMany 512, 0, 0), (OneToMany 1024, 0, 0)]"
proof -
  have g: "generate_incoming_stream mt dist 0 seed = Inr []" for seed
    by (simp add: generate_incoming_stream_def stream_loop.simps)
  have i: "ITERATIONS [''string-interning'', ''abc''] = 0"
    by (simp add: ITERATIONS_def atoll_def isspace_def isdigit_def)
  show ?thesis
    by (simp add: g i main_def run_benchmark_empty) (simp add: zero_outcome_def)
qed

subsection \<open>The exit code\<close>

lemma agree_iff: "agree (sc, a, b) \<longleftrightarrow> a = b"
  by (simp add: agree_def)

lemma fanouts_from_8: "fanouts_from 8 = [8, 16, 32, 64, 128, 256, 512, 1024]"
  by (simp add: fanouts_from.simps)

lemma registry_1to1_append:
  "registry_1to1 r target_id (xs @ ys) matches =
     (case registry_1to1 r target_id xs matches of
        (matches', r') \<Rightarrow> registry_1to1 r' target_id ys matches')"
  by (induction xs arbitrary: r matches) (simp_all split: prod.splits)

lemma registry_1to1_registry:
  "snd (registry_1to1 r target_id incoming matches) = snd (get_ids r incoming)"
  by (induction incoming arbitrary: r matches) (simp_all split: prod.splits)

lemma get_ids_dom: "set ws \<subseteq> dom (string_to_id (snd (get_ids r ws)))"
proof (induction ws arbitrary: r)
  case Nil
  then show ?case by simp
next
  case (Cons w ws)
  have "string_to_id (snd (get_ids (snd (get_id r w)) ws)) w = Some (fst (get_id r w))"
    by (rule get_ids_keeps [OF get_id_assigns])
  then have "w \<in> dom (string_to_id (snd (get_ids (snd (get_id r w)) ws)))" by blast
  with Cons.IH [of "snd (get_id r w)"] show ?case
    by (simp only: get_ids_snd_Cons) simp
qed

lemma get_ids_known_all: "set ws \<subseteq> dom (string_to_id r) \<Longrightarrow> snd (get_ids r ws) = r"
proof (induction ws)
  case Nil
  then show ?case by simp
next
  case (Cons w ws)
  from Cons.prems obtain i where "string_to_id r w = Some i" by auto
  then have "get_id r w = (i, r)" by (rule get_id_known)
  then have "snd (get_ids r (w # ws)) = snd (get_ids r ws)"
    by (simp only: get_ids_snd_Cons snd_conv)
  with Cons show ?case by simp
qed

lemma get_ids_stable: "snd (get_ids (snd (get_ids r ws)) ws) = snd (get_ids r ws)"
  by (rule get_ids_known_all [OF get_ids_dom])

text \<open>The line of the model is the line of the contract.\<close>

lemma diagnostic_text:
  "diagnostic sc a b =
     (case sc of
        OneToOne \<Rightarrow> ''ERROR [1-to-1]: match counts differ (''
      | OneToMany fanout \<Rightarrow>
          ''ERROR [1-to-many fanout='' @ decimal fanout @ '']: match counts differ ('') @
     decimal (unat a) @ '' vs '' @ decimal (unat b) @ '')'' @ [CHR 0x0A]"
  by (cases sc) simp_all

text \<open>
  The sweep from a positive start value, on a registry that knows every symbol of the stream:
  it returns; the scenarios it adds to the trace are the fanout points in order, each with
  the counts of the two paths on that registry; it ends with exit code 0 after the last
  point, all counts equal, or with exit code 1 at the first point whose counts differ.
\<close>

lemma sweep_contract:
  assumes "0 < fanout" and "list_all agree (runs out)" and "cerr out = []"
    and "list_all Q (runs out)"
    and stable: "snd (get_ids registry incoming) = registry"
    and Q: "\<And>f. Q (OneToMany f, fst (registry_fanout registry target_id f incoming 0),
                   direct_fanout target_string f incoming 0)"
  shows "\<exists>res done later.
           sweep target_string target_id incoming fanout registry sink out = Some res \<and>
           fanouts_from fanout = done @ later \<and>
           map fst (runs res) = map fst (runs out) @ map OneToMany done \<and>
           list_all Q (runs res) \<and>
           (exit_code res = 0 \<and> later = [] \<and> list_all agree (runs res) \<and> cerr res = [] \<or>
            exit_code res = 1 \<and>
            (\<exists>earlier sc a b.
               runs res = earlier @ [(sc, a, b)] \<and> a \<noteq> b \<and> list_all agree earlier \<and>
               cerr res = diagnostic sc a b))"
  using assms(1-4)
proof (induction fanout arbitrary: sink out rule: fanouts_from.induct)
  case (1 fanout)
  show ?case
  proof (cases "fanout \<le> 1024")
    case False
    then have "fanouts_from fanout = []" by (subst fanouts_from.simps) simp
    moreover from False
    have "sweep target_string target_id incoming fanout registry sink out =
          Some (out\<lparr>exit_code := 0\<rparr>)"
      by (subst sweep.simps) simp
    ultimately show ?thesis using "1.prems" by simp
  next
    case le: True
    define sink1 where "sink1 = fst (registry_fanout registry target_id fanout incoming sink)"
    define matches_c where "matches_c = fst (registry_fanout registry target_id fanout incoming 0)"
    have w: "registry_fanout registry target_id fanout incoming sink = (sink1, registry)"
      using registry_fanout_registry [of registry target_id fanout incoming sink] stable
      by (simp add: sink1_def prod_eq_iff)
    have t: "registry_fanout registry target_id fanout incoming 0 = (matches_c, registry)"
      using registry_fanout_registry [of registry target_id fanout incoming 0] stable
      by (simp add: matches_c_def prod_eq_iff)
    define sink2 where "sink2 = direct_fanout target_string fanout incoming sink1"
    define matches_d where "matches_d = direct_fanout target_string fanout incoming 0"
    define out1 where "out1 = out\<lparr>runs := runs out @ [(OneToMany fanout, matches_c, matches_d)]\<rparr>"
    define out2 where "out2 = out1\<lparr>fanout_results := fanout_results out1 @ [(fanout, matches_c)]\<rparr>"
    define failed where "failed = out1\<lparr>exit_code := 1,
      cerr := cerr out1 @ diagnostic (OneToMany fanout) matches_c matches_d\<rparr>"
    have step: "sweep target_string target_id incoming fanout registry sink out =
      (if matches_c \<noteq> matches_d then Some failed
       else sweep target_string target_id incoming (fanout * 2) registry sink2 out2)"
      using le
      by (subst sweep.simps)
         (simp add: w t sink2_def matches_d_def out1_def out2_def failed_def Let_def)
    have f: "fanouts_from fanout = fanout # fanouts_from (fanout * 2)"
      using le "1.prems"(1) by (subst fanouts_from.simps) simp
    have q: "Q (OneToMany fanout, matches_c, matches_d)"
      unfolding matches_c_def matches_d_def by (rule Q)
    show ?thesis
    proof (cases "matches_c = matches_d")
      case False
      have "sweep target_string target_id incoming fanout registry sink out = Some failed"
        using False step by simp
      moreover have "fanouts_from fanout = [fanout] @ fanouts_from (fanout * 2)"
        using f by simp
      moreover have "map fst (runs failed) = map fst (runs out) @ map OneToMany [fanout]"
        by (simp add: failed_def out1_def)
      moreover have "list_all Q (runs failed)"
        using "1.prems"(4) q by (simp add: failed_def out1_def)
      moreover have "exit_code failed = 1" by (simp add: failed_def)
      moreover have "runs failed = runs out @ [(OneToMany fanout, matches_c, matches_d)]"
        by (simp add: failed_def out1_def)
      moreover have "cerr failed = diagnostic (OneToMany fanout) matches_c matches_d"
        using "1.prems"(3) by (simp add: failed_def out1_def)
      ultimately show ?thesis using False "1.prems"(2) by blast
    next
      case True
      have a2: "list_all agree (runs out2)"
        using "1.prems"(2) True by (simp add: out2_def out1_def agree_iff)
      have c2: "cerr out2 = []" using "1.prems"(3) by (simp add: out2_def out1_def)
      have q2: "list_all Q (runs out2)" using "1.prems"(4) q by (simp add: out2_def out1_def)
      have r2: "map fst (runs out2) = map fst (runs out) @ [OneToMany fanout]"
        by (simp add: out2_def out1_def)
      have pos: "0 < fanout * 2" using "1.prems"(1) by simp
      from "1.IH" [OF _ pos a2 c2 q2, of sink2] le "1.prems"(1)
      obtain res done' later where res:
        "sweep target_string target_id incoming (fanout * 2) registry sink2 out2 = Some res"
        "fanouts_from (fanout * 2) = done' @ later"
        "map fst (runs res) = map fst (runs out2) @ map OneToMany done'"
        "list_all Q (runs res)"
        "exit_code res = 0 \<and> later = [] \<and> list_all agree (runs res) \<and> cerr res = [] \<or>
         exit_code res = 1 \<and>
         (\<exists>earlier sc a b.
            runs res = earlier @ [(sc, a, b)] \<and> a \<noteq> b \<and> list_all agree earlier \<and>
            cerr res = diagnostic sc a b)"
        by blast
      have "sweep target_string target_id incoming fanout registry sink out = Some res"
        using True step res(1) by simp
      moreover have "fanouts_from fanout = (fanout # done') @ later"
        using f res(2) by simp
      moreover have "map fst (runs res) = map fst (runs out) @ map OneToMany (fanout # done')"
        using res(3) r2 by simp
      ultimately show ?thesis using res(4,5) by blast
    qed
  qed
qed

lemma pool_registry:
  "get_id (snd (get_ids empty_registry SYMBOL_POOL)) ''BTCUSD'' =
     (40, snd (get_ids empty_registry SYMBOL_POOL))"
  by (simp add: SYMBOL_POOL_def get_id_def empty_registry_def)

lemma warm_registry_target: "get_id (warm_registry incoming) ''BTCUSD'' = (40, warm_registry incoming)"
proof -
  have "string_to_id (snd (get_ids empty_registry SYMBOL_POOL)) ''BTCUSD'' = Some 40"
    using get_id_assigns [of "snd (get_ids empty_registry SYMBOL_POOL)" "''BTCUSD''"]
    by (simp add: pool_registry)
  then have "string_to_id (warm_registry incoming) ''BTCUSD'' = Some 40"
    unfolding warm_registry_def by (rule get_ids_keeps)
  then show ?thesis by (rule get_id_known)
qed

lemma exit_contract_run_benchmark:
  "\<exists>out. run_benchmark incoming = Some out \<and> exit_contract out \<and> counts_recorded incoming out"
proof -
  let ?P = "snd (get_ids empty_registry SYMBOL_POOL)"
  let ?W = "warm_registry incoming"
  let ?Q = "\<lambda>run. snd run = path_counts incoming (fst run)"
  have stable: "snd (get_ids ?W incoming) = ?W"
    unfolding warm_registry_def by (rule get_ids_stable)
  define sink1 where "sink1 = fst (registry_1to1 ?P 40 incoming 0)"
  define matches_a where "matches_a = fst (registry_1to1 ?W 40 incoming 0)"
  have w: "registry_1to1 ?P 40 incoming 0 = (sink1, ?W)"
    using registry_1to1_registry [of ?P 40 incoming 0]
    by (simp add: sink1_def warm_registry_def prod_eq_iff)
  have t: "registry_1to1 ?W 40 incoming 0 = (matches_a, ?W)"
    using registry_1to1_registry [of ?W 40 incoming 0] stable
    by (simp add: matches_a_def prod_eq_iff)
  define sink2 where "sink2 = direct_1to1 ''BTCUSD'' incoming sink1"
  define matches_b where "matches_b = direct_1to1 ''BTCUSD'' incoming 0"
  define out0 where "out0 = \<lparr>exit_code = 0, cerr = [], runs = [(OneToOne, matches_a, matches_b)],
    fanout_results = []\<rparr>"
  define failed where "failed = out0\<lparr>exit_code := 1,
    cerr := cerr out0 @ diagnostic OneToOne matches_a matches_b\<rparr>"
  have run: "run_benchmark incoming =
    (if matches_a \<noteq> matches_b then Some failed
     else sweep ''BTCUSD'' 40 incoming 8 ?W sink2 out0)"
    by (simp add: run_benchmark_def pool_registry w t sink2_def matches_b_def out0_def
        failed_def Let_def)
  have q0: "list_all ?Q (runs out0)"
    by (simp add: out0_def path_counts_def warm_registry_target matches_a_def matches_b_def)
  have qf: "?Q (OneToMany f, fst (registry_fanout ?W 40 f incoming 0),
                direct_fanout ''BTCUSD'' f incoming 0)" for f
    by (simp add: path_counts_def warm_registry_target)
  show ?thesis
  proof (cases "matches_a = matches_b")
    case False
    have "run_benchmark incoming = Some failed" using False run by simp
    moreover have "counts_recorded incoming failed"
      using q0 by (simp add: counts_recorded_def failed_def)
    moreover have "exit_contract failed"
      unfolding exit_contract_def
    proof (intro conjI impI)
      show "exit_code failed = 0 \<longleftrightarrow> list_all agree (runs failed)"
        using False by (simp add: failed_def out0_def agree_iff)
      show "exit_code failed = 1" by (simp add: failed_def)
      show "\<exists>earlier sc a b later.
           runs failed = earlier @ [(sc, a, b)] \<and> a \<noteq> b \<and> list_all agree earlier \<and>
           cerr failed =
             (case sc of
                OneToOne \<Rightarrow> ''ERROR [1-to-1]: match counts differ (''
              | OneToMany fanout \<Rightarrow>
                  ''ERROR [1-to-many fanout='' @ decimal fanout @
                  '']: match counts differ ('') @
             decimal (unat a) @ '' vs '' @ decimal (unat b) @ '')'' @ [CHR 0x0A] \<and>
           all_scenarios = map fst (runs failed) @ later"
        using False
        by (intro exI [of _ "[]"] exI [of _ OneToOne] exI [of _ matches_a] exI [of _ matches_b]
              exI [of _ "map OneToMany [8, 16, 32, 64, 128, 256, 512, 1024]"])
           (simp add: failed_def out0_def all_scenarios_def)
    qed (simp_all add: failed_def)
    ultimately show ?thesis by blast
  next
    case True
    have a0: "list_all agree (runs out0)" using True by (simp add: out0_def agree_iff)
    have c0: "cerr out0 = []" by (simp add: out0_def)
    have pos: "(0 :: nat) < 8" by simp
    from sweep_contract [of 8 out0 ?Q ?W incoming 40 "''BTCUSD''" sink2, OF pos a0 c0 q0 stable qf]
    obtain res done' later where res:
      "sweep ''BTCUSD'' 40 incoming 8 ?W sink2 out0 = Some res"
      "fanouts_from 8 = done' @ later"
      "map fst (runs res) = map fst (runs out0) @ map OneToMany done'"
      "list_all ?Q (runs res)"
      "exit_code res = 0 \<and> later = [] \<and> list_all agree (runs res) \<and> cerr res = [] \<or>
       exit_code res = 1 \<and>
       (\<exists>earlier sc a b.
          runs res = earlier @ [(sc, a, b)] \<and> a \<noteq> b \<and> list_all agree earlier \<and>
          cerr res = diagnostic sc a b)"
      by blast
    have sc: "all_scenarios = map fst (runs res) @ map OneToMany later"
      using res(2,3) by (simp add: all_scenarios_def out0_def fanouts_from_8 [symmetric])
    have "run_benchmark incoming = Some res" using True run res(1) by simp
    moreover have "counts_recorded incoming res"
      using res(4) by (simp add: counts_recorded_def)
    moreover have "exit_contract res"
      using res(5)
    proof
      assume ok: "exit_code res = 0 \<and> later = [] \<and> list_all agree (runs res) \<and> cerr res = []"
      with sc show ?thesis by (simp add: exit_contract_def)
    next
      assume bad: "exit_code res = 1 \<and>
       (\<exists>earlier sc a b.
          runs res = earlier @ [(sc, a, b)] \<and> a \<noteq> b \<and> list_all agree earlier \<and>
          cerr res = diagnostic sc a b)"
      then obtain earlier sc' a b where e: "runs res = earlier @ [(sc', a, b)]" "a \<noteq> b"
        "list_all agree earlier" "cerr res = diagnostic sc' a b" by blast
      have "\<not> list_all agree (runs res)" using e(1,2) by (simp add: agree_iff)
      with bad e sc show ?thesis unfolding exit_contract_def diagnostic_text by auto
    qed
    ultimately show ?thesis by blast
  qed
qed

lemma split_digits:
  assumes "list_all isdigit xs" and "list_all isdigit xs'"
    and "\<not> isdigit c" and "\<not> isdigit c'"
    and eq: "xs @ c # ys = xs' @ c' # ys'"
  shows "xs = xs' \<and> ys = ys'"
proof -
  have "takeWhile isdigit (xs @ c # ys) = xs"
    using assms(1,3) by (simp add: takeWhile_append2 list_all_iff)
  moreover have "takeWhile isdigit (xs' @ c' # ys') = xs'"
    using assms(2,4) by (simp add: takeWhile_append2 list_all_iff)
  ultimately have "xs = xs'" using eq by simp
  with eq show ?thesis by simp
qed

lemma count_text_inj:
  fixes a b a' b' :: size_t
  assumes "decimal (unat a) @ '' vs '' @ decimal (unat b) @ '')'' @ [CHR 0x0A] =
           decimal (unat a') @ '' vs '' @ decimal (unat b') @ '')'' @ [CHR 0x0A]"
  shows "a = a' \<and> b = b'"
proof -
  have sp: "\<not> isdigit CHR '' ''" and par: "\<not> isdigit CHR '')''"
    by (simp_all add: isdigit_def)
  from assms have "decimal (unat a) @ CHR '' '' # (''vs '' @ decimal (unat b) @ '')'' @ [CHR 0x0A]) =
    decimal (unat a') @ CHR '' '' # (''vs '' @ decimal (unat b') @ '')'' @ [CHR 0x0A])"
    by simp
  from split_digits [OF decimal_digits decimal_digits sp sp this]
  have 1: "decimal (unat a) = decimal (unat a')"
    and "''vs '' @ decimal (unat b) @ '')'' @ [CHR 0x0A] = ''vs '' @ decimal (unat b') @ '')'' @ [CHR 0x0A]"
    by simp_all
  then have "decimal (unat b) @ CHR '')'' # [CHR 0x0A] = decimal (unat b') @ CHR '')'' # [CHR 0x0A]"
    by simp
  from split_digits [OF decimal_digits decimal_digits par par this]
  have 2: "decimal (unat b) = decimal (unat b')" by simp
  from 1 2 show ?thesis by (simp add: word_unat_eq_iff decimal_inj)
qed

text \<open>The line determines the scenario and the two counts.\<close>

lemma diagnostic_inj:
  assumes "diagnostic sc a b = diagnostic sc' a' b'"
  shows "sc = sc' \<and> a = a' \<and> b = b'"
proof (cases sc)
  case OneToOne
  show ?thesis
  proof (cases sc')
    case sc': OneToOne
    from assms OneToOne sc' have "decimal (unat a) @ '' vs '' @ decimal (unat b) @ '')'' @ [CHR 0x0A] =
           decimal (unat a') @ '' vs '' @ decimal (unat b') @ '')'' @ [CHR 0x0A]"
      by simp
    from count_text_inj [OF this] OneToOne sc' show ?thesis by simp
  next
    case (OneToMany f')
    with assms OneToOne show ?thesis by simp
  qed
next
  case (OneToMany f)
  show ?thesis
  proof (cases sc')
    case OneToOne
    with assms OneToMany show ?thesis by simp
  next
    case sc': (OneToMany f')
    have br: "\<not> isdigit CHR '']''" by (simp add: isdigit_def)
    from assms OneToMany sc'
    have "decimal f @ CHR '']'' # ('': match counts differ ('' @
            decimal (unat a) @ '' vs '' @ decimal (unat b) @ '')'' @ [CHR 0x0A]) =
          decimal f' @ CHR '']'' # ('': match counts differ ('' @
            decimal (unat a') @ '' vs '' @ decimal (unat b') @ '')'' @ [CHR 0x0A])"
      by simp
    from split_digits [OF decimal_digits decimal_digits br br this]
    have f: "decimal f = decimal f'"
      and "decimal (unat a) @ '' vs '' @ decimal (unat b) @ '')'' @ [CHR 0x0A] =
           decimal (unat a') @ '' vs '' @ decimal (unat b') @ '')'' @ [CHR 0x0A]"
      by simp_all
    from count_text_inj [OF this(2)] decimal_inj [OF f] OneToMany sc' show ?thesis by simp
  qed
qed

lemma main_returns:
  "\<exists>res. main mt dist argv = Some res \<and>
     (res = Inl LengthError \<longleftrightarrow> vector_max_size < unat (ITERATIONS argv)) \<and>
     (\<forall>out. res = Inr out \<longrightarrow>
        exit_contract out \<and>
        (\<exists>incoming. generate_incoming_stream mt dist (unat (ITERATIONS argv)) 42 = Inr incoming \<and>
           run_benchmark incoming = Some out \<and> counts_recorded incoming out))"
proof (cases "generate_incoming_stream mt dist (unat (ITERATIONS argv)) 42")
  case (Inl e)
  have "e = LengthError \<longleftrightarrow> vector_max_size < unat (ITERATIONS argv)"
    using Inl generate_length_error [of "unat (ITERATIONS argv)" mt dist 42]
      generate_no_length_error [of "unat (ITERATIONS argv)" mt dist 42]
    by (cases "vector_max_size < unat (ITERATIONS argv)") auto
  with Inl show ?thesis by (simp add: main_def)
next
  case (Inr stream)
  have "\<not> vector_max_size < unat (ITERATIONS argv)"
    using Inr generate_length_error [of "unat (ITERATIONS argv)" mt dist 42] by auto
  moreover from exit_contract_run_benchmark [of stream]
  obtain out where "run_benchmark stream = Some out" "exit_contract out"
    "counts_recorded stream out" by blast
  ultimately show ?thesis using Inr by (simp add: main_def)
qed

text \<open>
  Claim C7 (exit code), for the runs in which \<open>main\<close> returns: for every incoming stream
  the benchmark returns, its trace carries the match counts of the two paths, and its outcome
  satisfies the contract of the exit code: 0 exactly when the match counts of every scenario
  agree; on the first scenario whose counts differ, exit code 1 at once, with one line on
  \<open>std::cerr\<close> that names the scenario (1-to-1, or 1-to-many with its fanout) and the two
  counts, and no later scenario run. The line determines the scenario and the counts.
  Whenever \<open>main\<close> returns, it does so with such an outcome on the stream it generated; it
  ends in \<open>std::length_error\<close>, without an exit code, exactly when the count is above
  \<open>max_size\<close>.
\<close>

theorem exit_code_contract:
  "(\<exists>out. run_benchmark incoming = Some out \<and> exit_contract out \<and>
          counts_recorded incoming out) \<and>
   (\<forall>sc a b sc' a' b'.
      diagnostic sc a b = diagnostic sc' a' b' \<longrightarrow> sc = sc' \<and> a = a' \<and> b = b') \<and>
   (\<exists>res. main mt dist argv = Some res \<and>
      (res = Inl LengthError \<longleftrightarrow> vector_max_size < unat (ITERATIONS argv)) \<and>
      (\<forall>out. res = Inr out \<longrightarrow>
         exit_contract out \<and>
         (\<exists>incoming. generate_incoming_stream mt dist (unat (ITERATIONS argv)) 42 = Inr incoming \<and>
            run_benchmark incoming = Some out \<and> counts_recorded incoming out)))"
  using exit_contract_run_benchmark [of incoming] diagnostic_inj main_returns [of mt dist argv]
  by blast

lemma run_benchmark_sample:
  "run_benchmark [''BTCUSD'', ''AAPL'', ''BTCUSD''] = Some sample_outcome"
  by (simp add: run_benchmark_def SYMBOL_POOL_def get_id_def empty_registry_def sweep.simps
      count_id_matches_eq count_string_matches_eq Let_def sample_outcome_def)

lemma registry_1to1_count:
  "\<exists>k \<le> length incoming. fst (registry_1to1 r target_id incoming matches) = matches + of_nat k"
proof (induction incoming arbitrary: r matches)
  case Nil
  then show ?case by simp
next
  case (Cons symb incoming)
  obtain i r' where g: "get_id r symb = (i, r')" by (cases "get_id r symb")
  show ?case
  proof (cases "i = target_id")
    case True
    from Cons.IH [of r' "matches + 1"] obtain k where
      "k \<le> length incoming" "fst (registry_1to1 r' target_id incoming (matches + 1)) =
         matches + 1 + of_nat k" by blast
    with True g show ?thesis by (intro exI [of _ "Suc k"]) (simp add: add.assoc)
  next
    case False
    from Cons.IH [of r' matches] obtain k where
      "k \<le> length incoming" "fst (registry_1to1 r' target_id incoming matches) =
         matches + of_nat k" by blast
    with False g show ?thesis by (intro exI [of _ k]) simp
  qed
qed

lemma direct_1to1_absent:
  "target_string \<notin> set incoming \<Longrightarrow> direct_1to1 target_string incoming matches = matches"
  by (induction incoming arbitrary: matches) auto

lemma bits_chars: "set (bits n) \<subseteq> {CHR ''0'', CHR ''1''}"
proof (induction n rule: bits.induct)
  case (1 n)
  then show ?case by (subst bits.simps) auto
qed

lemma pool_not_bits: "s \<in> set SYMBOL_POOL \<Longrightarrow> \<not> set s \<subseteq> {CHR ''0'', CHR ''1''}"
  by (auto simp: SYMBOL_POOL_def)

lemma many_symbols_pool: "set (many_symbols n) \<inter> set SYMBOL_POOL = {}"
  using bits_chars pool_not_bits by (fastforce simp: many_symbols_def)

lemma distinct_SYMBOL_POOL: "distinct SYMBOL_POOL"
  by (simp add: SYMBOL_POOL_def)

lemma pool_table: "id_to_string (snd (get_ids empty_registry SYMBOL_POOL)) = SYMBOL_POOL"
  using get_ids_fresh_table [OF registry_inv_empty distinct_SYMBOL_POOL]
  by (simp add: empty_registry_def)

lemma size_t_of_nat_nonzero:
  assumes "0 < n" and "n < 2 ^ 64"
  shows "(of_nat n :: size_t) \<noteq> 0"
proof
  assume "(of_nat n :: size_t) = 0"
  then have "unat (of_nat n :: size_t) = 0" by simp
  moreover have "unat (of_nat n :: size_t) = n" using assms(2) by (simp add: unat_of_nat)
  ultimately show False using assms(1) by simp
qed

lemma uint32_wrap_40: "(4294967336 :: uint32_t) = 40"
  by (simp add: word_eq_iff_unsigned [where ?'a = nat])

text \<open>
  A run of the benchmark whose 1-to-1 check fails: the pool takes the IDs 0 to 44, the target
  BTCUSD has ID 40, and the stream brings \<open>2^32 - 4\<close> further symbols; the last of them sits
  at position \<open>2^32 + 40\<close> of the table and is given the ID 40.
\<close>

lemma overflow_benchmark:
  "\<exists>matches_a. matches_a \<noteq> 0 \<and>
     run_benchmark (many_symbols 4294967292) =
       Some \<lparr>exit_code = 1, cerr = diagnostic OneToOne matches_a 0,
             runs = [(OneToOne, matches_a, 0)], fanout_results = []\<rparr>"
proof -
  let ?n = "4294967291 :: nat"
  let ?rp = "snd (get_ids empty_registry SYMBOL_POOL)"
  define ws where "ws = many_symbols 4294967292"
  define r1 where "r1 = snd (get_ids ?rp ws)"
  define rA where "rA = snd (get_ids r1 (many_symbols ?n))"
  have split: "ws = many_symbols ?n @ [bits ?n]"
    unfolding ws_def using many_symbols_Suc [of ?n] by simp
  have invp: "registry_inv ?rp" by (rule registry_inv_get_ids [OF registry_inv_empty])
  have inv1: "registry_inv r1" unfolding r1_def using invp by (rule registry_inv_get_ids)
  have tab1: "id_to_string r1 = SYMBOL_POOL @ ws"
    unfolding r1_def ws_def
    using get_ids_fresh_table [OF invp distinct_many_symbols, of 4294967292]
      many_symbols_pool [of 4294967292]
    by (simp add: pool_table)
  \<comment> \<open>the last symbol of the stream has the target's ID\<close>
  have "(SYMBOL_POOL @ ws) ! (45 + ?n) = bits ?n"
    by (simp add: nth_append length_SYMBOL_POOL ws_def many_symbols_def)
  moreover have "45 + ?n < length (SYMBOL_POOL @ ws)"
    by (simp add: length_SYMBOL_POOL ws_def length_many_symbols)
  ultimately have "string_to_id r1 (bits ?n) = Some (of_nat (45 + ?n))"
    using inv1 unfolding registry_inv_def tab1 by blast
  then have look1: "string_to_id r1 (bits ?n) = Some 40"
    by (simp add: uint32_wrap_40)
  then have "string_to_id rA (bits ?n) = Some 40" unfolding rA_def by (rule get_ids_keeps)
  then have last: "get_id rA (bits ?n) = (40, rA)" by (rule get_id_known)
  \<comment> \<open>the timed registry loop counts at least this match\<close>
  obtain k where k: "k \<le> length (many_symbols ?n)"
    "fst (registry_1to1 r1 40 (many_symbols ?n) 0) = 0 + of_nat k"
    using registry_1to1_count [of "many_symbols ?n" r1 40 0] by blast
  have pre: "registry_1to1 r1 40 (many_symbols ?n) 0 = (of_nat k, rA)"
    unfolding rA_def
    using k(2) registry_1to1_registry [of r1 40 "many_symbols ?n" 0]
    by (metis add_0 prod.collapse)
  have timed: "registry_1to1 r1 40 ws 0 = (of_nat (Suc k), rA)"
    by (simp add: split registry_1to1_append pre last)
  have "Suc k < 2 ^ 64" using k(1) by (simp add: length_many_symbols)
  then have nz: "(of_nat (Suc k) :: size_t) \<noteq> 0"
    by (intro size_t_of_nat_nonzero) simp_all
  \<comment> \<open>the direct loop counts nothing\<close>
  have "''BTCUSD'' \<notin> set ws"
    unfolding ws_def using many_symbols_pool [of 4294967292] by (auto simp: SYMBOL_POOL_def)
  then have direct: "direct_1to1 ''BTCUSD'' ws 0 = 0" by (rule direct_1to1_absent)
  obtain sink1 where warm: "registry_1to1 ?rp 40 ws 0 = (sink1, r1)"
    unfolding r1_def using registry_1to1_registry [of ?rp 40 ws 0] by (metis prod.collapse)
  have "run_benchmark ws =
       Some \<lparr>exit_code = 1, cerr = diagnostic OneToOne (of_nat (Suc k)) 0,
             runs = [(OneToOne, of_nat (Suc k), 0)], fanout_results = []\<rparr>"
    unfolding run_benchmark_def Let_def pool_registry
    by (simp only: prod.case warm timed direct) (simp add: nz del: of_nat_Suc)
  with nz show ?thesis unfolding ws_def by blast
qed


text \<open>
  On a stream of pool symbols the two paths agree in every scenario, so that a run of
  \<open>main\<close> that returns, returns 0: the check of the counts cannot fail on a generated
  stream.
\<close>

lemma pool_stream_counts:
  assumes "set incoming \<subseteq> set SYMBOL_POOL"
  shows "fst (path_counts incoming sc) = snd (path_counts incoming sc)"
proof -
  let ?P = "snd (get_ids empty_registry SYMBOL_POOL)"
  let ?W = "warm_registry incoming"
  have invp: "registry_inv ?P" by (rule registry_inv_get_ids [OF registry_inv_empty])
  have inv: "registry_inv ?W" unfolding warm_registry_def using invp by (rule registry_inv_get_ids)
  have look: "string_to_id ?W ''BTCUSD'' = Some 40"
    using get_id_assigns [of ?W "''BTCUSD''"] by (simp add: warm_registry_target)
  have "set (id_to_string ?W) \<union> set incoming = set SYMBOL_POOL"
    unfolding warm_registry_def using get_ids_table_set [OF invp, of incoming] assms
    by (auto simp: pool_table)
  then have "card (set (id_to_string ?W) \<union> set incoming) \<le> length SYMBOL_POOL"
    by (simp add: card_length)
  then have cap: "card (set (id_to_string ?W) \<union> set incoming) \<le> 2 ^ 32"
    by (simp add: length_SYMBOL_POOL)
  show ?thesis
    using registry_1to1_direct [OF inv look cap, of 0]
      registry_fanout_direct [OF inv look cap, of _ 0]
    by (cases sc) (simp_all add: path_counts_def warm_registry_target)
qed

lemma pool_stream_exit: 
  assumes "set incoming \<subseteq> set SYMBOL_POOL"
  shows "\<exists>out. run_benchmark incoming = Some out \<and> exit_code out = 0 \<and> cerr out = [] \<and>
               map fst (runs out) = all_scenarios"
proof -
  from exit_contract_run_benchmark [of incoming]
  obtain out where out: "run_benchmark incoming = Some out" "exit_contract out"
    "counts_recorded incoming out" by blast
  have "list_all agree (runs out)"
    using out(3) pool_stream_counts [OF assms]
    by (auto simp: counts_recorded_def list_all_iff agree_def)
  with out(2) have "exit_code out = 0 \<and> cerr out = [] \<and> map fst (runs out) = all_scenarios"
    unfolding exit_contract_def by blast
  with out(1) show ?thesis by blast
qed

lemma main_exit_code_zero:
  assumes "\<forall>a b g. a \<le> b \<longrightarrow> a \<le> fst (dist a b g) \<and> fst (dist a b g) \<le> b"
    and "unat (ITERATIONS argv) \<le> vector_max_size"
  shows "\<exists>out. main mt dist argv = Some (Inr out) \<and> exit_code out = 0 \<and> cerr out = [] \<and>
               map fst (runs out) = all_scenarios"
proof -
  note gen = generate_stream [OF assms, of mt 42]
  from pool_stream_exit [OF gen(2)] gen(1) show ?thesis by (auto simp: main_def)
qed

text \<open>
  Both sides of the contract: the run on BTCUSD, AAPL, BTCUSD, where all counts agree and the
  exit code is 0, and the run on \<open>2^32 - 4\<close> symbols outside the pool, where the counts of
  the 1-to-1 scenario differ, the exit code is 1, the line on \<open>std::cerr\<close> is the one of the
  1-to-1 scenario and no other scenario runs.
\<close>

theorem exit_code_contract_witness:
  "run_benchmark [''BTCUSD'', ''AAPL'', ''BTCUSD''] = Some sample_outcome \<and>
   exit_code sample_outcome = 0 \<and>
   list_all agree (runs sample_outcome) \<and>
   cerr sample_outcome = [] \<and>
   map fst (runs sample_outcome) = all_scenarios \<and>
   counts_recorded [''BTCUSD'', ''AAPL'', ''BTCUSD''] sample_outcome \<and>
   map_option exit_code (run_benchmark (many_symbols 4294967292)) = Some 1 \<and>
   map_option (map fst \<circ> runs) (run_benchmark (many_symbols 4294967292)) = Some [OneToOne] \<and>
   map_option (take 37 \<circ> cerr) (run_benchmark (many_symbols 4294967292)) =
     Some ''ERROR [1-to-1]: match counts differ (''"
proof -
  \<comment> \<open>a run in which all counts agree\<close>
  from exit_code_contract [of "[''BTCUSD'', ''AAPL'', ''BTCUSD'']", THEN conjunct1]
  have c: "exit_contract sample_outcome"
    and r: "counts_recorded [''BTCUSD'', ''AAPL'', ''BTCUSD''] sample_outcome"
    by (simp_all add: run_benchmark_sample)
  have e: "exit_code sample_outcome = 0" by (simp add: sample_outcome_def)
  from c e have good: "list_all agree (runs sample_outcome) \<and> cerr sample_outcome = [] \<and>
    map fst (runs sample_outcome) = all_scenarios"
    unfolding exit_contract_def by simp
  \<comment> \<open>a run in which the counts of the first scenario differ\<close>
  obtain matches_a where a: "matches_a \<noteq> 0" and
    o: "run_benchmark (many_symbols 4294967292) =
       Some \<lparr>exit_code = 1, cerr = diagnostic OneToOne matches_a 0,
             runs = [(OneToOne, matches_a, 0)], fanout_results = []\<rparr>"
    using overflow_benchmark by blast
  define failed where "failed = \<lparr>exit_code = 1, cerr = diagnostic OneToOne matches_a 0,
             runs = [(OneToOne, matches_a, 0)], fanout_results = []\<rparr>"
  from exit_code_contract [of "many_symbols 4294967292", THEN conjunct1]
  have c': "exit_contract failed" by (simp add: o failed_def)
  have "\<not> list_all agree (runs failed)" using a by (simp add: failed_def agree_iff)
  with c' have "exit_code failed = 1" unfolding exit_contract_def by blast
  then have bad: "map_option exit_code (run_benchmark (many_symbols 4294967292)) = Some 1"
    by (simp add: o failed_def)
  have "map_option (map fst \<circ> runs) (run_benchmark (many_symbols 4294967292)) = Some [OneToOne]"
    and "map_option (take 37 \<circ> cerr) (run_benchmark (many_symbols 4294967292)) =
     Some ''ERROR [1-to-1]: match counts differ (''"
    by (simp_all add: o)
  with good e r bad run_benchmark_sample show ?thesis by simp
qed

text \<open>
  Claim C7 does not hold of a run that never reaches the scenarios: with the argument \<open>-1\<close>
  the count is \<open>2^64 - 1\<close>, \<open>reserve\<close> throws, nothing catches the exception and \<open>main\<close>
  returns no exit code at all, although no two counts differ.
\<close>

theorem exit_code_contract_counterexample:
  "unat (ITERATIONS [''string-interning'', ''-1'']) = 18446744073709551615 \<and>
   main counter_engine counter_distribution [''string-interning'', ''-1''] =
     Some (Inl LengthError)"
proof -
  have "ITERATIONS [''string-interning'', ''-1''] = - 1"
    by (simp add: ITERATIONS_def atoll_def isspace_def isdigit_def)
  then have i: "unat (ITERATIONS [''string-interning'', ''-1'']) = 18446744073709551615"
    by (simp add: unsigned_minus_1_eq_mask mask_eq_exp_minus_1)
  then show ?thesis
    by (simp add: main_def generate_incoming_stream_def vector_max_size_def)
qed

end
